theory Spec2Isabelle
  imports Main "HOL-Library.AList"
begin

section \<open>Memory model\<close>

text \<open>
  The container of \<^verbatim>\<open>simple_vector.h\<close> separates raw storage from the lifetime of the
  elements it holds, so the model keeps both apart. A slot of a block is either raw
  memory (never constructed, or destroyed) or holds a live element. A pointer is null
  or names a block and a slot offset. The heap is an association list from block
  addresses to slot lists, together with a record of every element whose storage was
  reused or released while it was still live (its destructor never ran).

  Sizes and capacities are \<^verbatim>\<open>size_t\<close> in the source and natural numbers here; the two
  places where the source subtracts without a guard (\<^verbatim>\<open>--size_\<close> and
  \<^verbatim>\<open>size_ - dist_to_pos\<close>) have the wrap-around written out. (\<^verbatim>\<open>size_ * 2\<close> and
  \<^verbatim>\<open>++size_\<close> wrap only from \<open>2 ^ 63\<close> elements on, more than a block can hold.) The \<^verbatim>\<open>assert\<close>s of the
  source are compiled out (release build): an access outside a block, through a null
  pointer or to a slot that holds no live element is the outcome \<open>Undefined\<close>.
  The field names of the source end in an underscore, which is not a name here; they
  end in a prime instead.
\<close>

datatype 'a slot = Raw | Live 'a

datatype ptr = Null | Ptr nat nat

record 'a heap =
  blocks :: "(nat \<times> 'a slot list) list"
  leaked :: "'a list"

datatype ('r, 's) outcome = Done 'r 's | Thrown 's | Terminated | Undefined

text \<open>
  The element type \<^verbatim>\<open>T\<close> of the templates is a parameter: the two traits the source
  tests with \<^verbatim>\<open>if constexpr\<close>, and what each of its operations yields (\<open>None\<close> when
  the operation throws). A move yields the new value together with what is left in the
  moved-from object; an assignment takes the target's old value first.
\<close>

record 'a elem_ops =
  is_copy_constructible :: bool
  is_nothrow_move_constructible :: bool
  value_init :: "'a option"
  copy_ctor :: "'a \<Rightarrow> 'a option"
  move_ctor :: "'a \<Rightarrow> ('a \<times> 'a) option"
  copy_asg :: "'a \<Rightarrow> 'a \<Rightarrow> 'a option"
  move_asg :: "'a \<Rightarrow> 'a \<Rightarrow> ('a \<times> 'a) option"

definition size_t_sub :: "nat \<Rightarrow> nat \<Rightarrow> nat" where
  "size_t_sub a b = (if b \<le> a then a - b else a + 2 ^ 64 - b)"

fun ptr_add :: "ptr \<Rightarrow> nat \<Rightarrow> ptr" where
  "ptr_add Null n = Null"
| "ptr_add (Ptr b i) n = Ptr b (i + n)"

fun ptr_dec :: "ptr \<Rightarrow> ptr option" where
  "ptr_dec Null = None"
| "ptr_dec (Ptr b 0) = None"
| "ptr_dec (Ptr b (Suc i)) = Some (Ptr b i)"

fun load :: "'a heap \<Rightarrow> ptr \<Rightarrow> 'a slot option" where
  "load h Null = None"
| "load h (Ptr b i) =
     (case map_of (blocks h) b of
        None \<Rightarrow> None
      | Some ss \<Rightarrow> if i < length ss then Some (ss ! i) else None)"

fun store :: "ptr \<Rightarrow> 'a slot \<Rightarrow> 'a heap \<Rightarrow> 'a heap" where
  "store Null s h = h"
| "store (Ptr b i) s h = h\<lparr>blocks := AList.map_entry b (\<lambda>ss. ss[i := s]) (blocks h)\<rparr>"

definition read_obj :: "'a heap \<Rightarrow> ptr \<Rightarrow> 'a option" where
  "read_obj h p = (case load h p of Some (Live x) \<Rightarrow> Some x | _ \<Rightarrow> None)"

text \<open>Placement new of a value: storage that still holds a live element is reused
  without running its destructor.\<close>

definition construct_at :: "ptr \<Rightarrow> 'a \<Rightarrow> 'a heap \<Rightarrow> 'a heap option" where
  "construct_at p x h =
     (case load h p of
        None \<Rightarrow> None
      | Some Raw \<Rightarrow> Some (store p (Live x) h)
      | Some (Live y) \<Rightarrow> Some ((store p (Live x) h)\<lparr>leaked := leaked h @ [y]\<rparr>))"

definition destroy_at :: "ptr \<Rightarrow> 'a heap \<Rightarrow> 'a heap option" where
  "destroy_at p h =
     (case load h p of
        Some (Live y) \<Rightarrow> Some (store p Raw h)
      | _ \<Rightarrow> None)"

fun destroy_loop :: "ptr \<Rightarrow> nat \<Rightarrow> nat \<Rightarrow> 'a heap \<Rightarrow> 'a heap option" where
  "destroy_loop p i 0 h = Some h"
| "destroy_loop p i (Suc k) h =
     (case destroy_at (ptr_add p i) h of
        None \<Rightarrow> None
      | Some h' \<Rightarrow> destroy_loop p (Suc i) k h')"

definition destroy_n :: "ptr \<Rightarrow> nat \<Rightarrow> 'a heap \<Rightarrow> 'a heap option" where
  "destroy_n p n h = destroy_loop p 0 n h"

text \<open>The three \<^verbatim>\<open>std::uninitialized_*_n\<close> algorithms: construct slot by slot; when a
  constructor throws, destroy what was constructed so far and rethrow.\<close>

fun uninitialized_copy_loop ::
  "'a elem_ops \<Rightarrow> ptr \<Rightarrow> ptr \<Rightarrow> nat \<Rightarrow> nat \<Rightarrow> 'a heap \<Rightarrow> (unit, 'a heap) outcome" where
  "uninitialized_copy_loop T first d_first i 0 h = Done () h"
| "uninitialized_copy_loop T first d_first i (Suc k) h =
     (case read_obj h (ptr_add first i) of
        None \<Rightarrow> Undefined
      | Some x \<Rightarrow>
          (case copy_ctor T x of
             None \<Rightarrow>
               (case destroy_n d_first i h of None \<Rightarrow> Undefined | Some h' \<Rightarrow> Thrown h')
           | Some y \<Rightarrow>
               (case construct_at (ptr_add d_first i) y h of
                  None \<Rightarrow> Undefined
                | Some h' \<Rightarrow> uninitialized_copy_loop T first d_first (Suc i) k h')))"

definition uninitialized_copy_n ::
  "'a elem_ops \<Rightarrow> ptr \<Rightarrow> nat \<Rightarrow> ptr \<Rightarrow> 'a heap \<Rightarrow> (unit, 'a heap) outcome" where
  "uninitialized_copy_n T first n d_first h = uninitialized_copy_loop T first d_first 0 n h"

fun uninitialized_move_loop ::
  "'a elem_ops \<Rightarrow> ptr \<Rightarrow> ptr \<Rightarrow> nat \<Rightarrow> nat \<Rightarrow> 'a heap \<Rightarrow> (unit, 'a heap) outcome" where
  "uninitialized_move_loop T first d_first i 0 h = Done () h"
| "uninitialized_move_loop T first d_first i (Suc k) h =
     (case read_obj h (ptr_add first i) of
        None \<Rightarrow> Undefined
      | Some x \<Rightarrow>
          (case move_ctor T x of
             None \<Rightarrow>
               (case destroy_n d_first i h of None \<Rightarrow> Undefined | Some h' \<Rightarrow> Thrown h')
           | Some (y, r) \<Rightarrow>
               (case construct_at (ptr_add d_first i) y (store (ptr_add first i) (Live r) h) of
                  None \<Rightarrow> Undefined
                | Some h' \<Rightarrow> uninitialized_move_loop T first d_first (Suc i) k h')))"

definition uninitialized_move_n ::
  "'a elem_ops \<Rightarrow> ptr \<Rightarrow> nat \<Rightarrow> ptr \<Rightarrow> 'a heap \<Rightarrow> (unit, 'a heap) outcome" where
  "uninitialized_move_n T first n d_first h = uninitialized_move_loop T first d_first 0 n h"

fun uninitialized_value_construct_loop ::
  "'a elem_ops \<Rightarrow> ptr \<Rightarrow> nat \<Rightarrow> nat \<Rightarrow> 'a heap \<Rightarrow> (unit, 'a heap) outcome" where
  "uninitialized_value_construct_loop T d_first i 0 h = Done () h"
| "uninitialized_value_construct_loop T d_first i (Suc k) h =
     (case value_init T of
        None \<Rightarrow>
          (case destroy_n d_first i h of None \<Rightarrow> Undefined | Some h' \<Rightarrow> Thrown h')
      | Some y \<Rightarrow>
          (case construct_at (ptr_add d_first i) y h of
             None \<Rightarrow> Undefined
           | Some h' \<Rightarrow> uninitialized_value_construct_loop T d_first (Suc i) k h'))"

definition uninitialized_value_construct_n ::
  "'a elem_ops \<Rightarrow> ptr \<Rightarrow> nat \<Rightarrow> 'a heap \<Rightarrow> (unit, 'a heap) outcome" where
  "uninitialized_value_construct_n T d_first n h =
     uninitialized_value_construct_loop T d_first 0 n h"

text \<open>\<^verbatim>\<open>std::uninitialized_copy_n(&value, 1, p)\<close>, \<^verbatim>\<open>std::uninitialized_move_n(&value, 1, p)\<close>
  and \<^verbatim>\<open>new (p) T(args...)\<close>: the source object is the caller's, outside the heap, so
  only the constructor's result \<open>made\<close> matters (\<open>None\<close>: it throws).\<close>

definition construct_from :: "'a option \<Rightarrow> ptr \<Rightarrow> 'a heap \<Rightarrow> (unit, 'a heap) outcome" where
  "construct_from made p h =
     (case made of
        None \<Rightarrow> Thrown h
      | Some y \<Rightarrow> (case construct_at p y h of None \<Rightarrow> Undefined | Some h' \<Rightarrow> Done () h'))"

text \<open>\<^verbatim>\<open>new (dst) T(std::move(*src))\<close>, \<^verbatim>\<open>*dst = *src\<close>, \<^verbatim>\<open>*dst = std::move(*src)\<close> and
  \<^verbatim>\<open>*dst = std::move(t)\<close> for a local \<^verbatim>\<open>t\<close>.\<close>

definition move_construct_at ::
  "'a elem_ops \<Rightarrow> ptr \<Rightarrow> ptr \<Rightarrow> 'a heap \<Rightarrow> (unit, 'a heap) outcome" where
  "move_construct_at T dst src h =
     (case read_obj h src of
        None \<Rightarrow> Undefined
      | Some x \<Rightarrow>
          (case move_ctor T x of
             None \<Rightarrow> Thrown h
           | Some (y, r) \<Rightarrow>
               (case construct_at dst y (store src (Live r) h) of
                  None \<Rightarrow> Undefined
                | Some h' \<Rightarrow> Done () h')))"

definition copy_assign_at ::
  "'a elem_ops \<Rightarrow> ptr \<Rightarrow> ptr \<Rightarrow> 'a heap \<Rightarrow> (unit, 'a heap) outcome" where
  "copy_assign_at T dst src h =
     (case (read_obj h dst, read_obj h src) of
        (Some t, Some x) \<Rightarrow>
          (case copy_asg T t x of
             None \<Rightarrow> Thrown h
           | Some t' \<Rightarrow> Done () (store dst (Live t') h))
      | _ \<Rightarrow> Undefined)"

definition move_assign_at ::
  "'a elem_ops \<Rightarrow> ptr \<Rightarrow> ptr \<Rightarrow> 'a heap \<Rightarrow> (unit, 'a heap) outcome" where
  "move_assign_at T dst src h =
     (case (read_obj h dst, read_obj h src) of
        (Some t, Some x) \<Rightarrow>
          (case move_asg T t x of
             None \<Rightarrow> Thrown h
           | Some (t', r) \<Rightarrow> Done () (store dst (Live t') (store src (Live r) h)))
      | _ \<Rightarrow> Undefined)"

definition move_assign_from ::
  "'a elem_ops \<Rightarrow> ptr \<Rightarrow> 'a \<Rightarrow> 'a heap \<Rightarrow> (unit, 'a heap) outcome" where
  "move_assign_from T dst x h =
     (case read_obj h dst of
        None \<Rightarrow> Undefined
      | Some t \<Rightarrow>
          (case move_asg T t x of
             None \<Rightarrow> Thrown h
           | Some (t', r) \<Rightarrow> Done () (store dst (Live t') h)))"

text \<open>\<^verbatim>\<open>std::move(first, first + n, d_first)\<close> assigns front to back;
  \<^verbatim>\<open>std::move_backward(first, first + n, d_last)\<close> assigns back to front. Neither rolls
  back when an assignment throws.\<close>

fun move_loop ::
  "'a elem_ops \<Rightarrow> ptr \<Rightarrow> ptr \<Rightarrow> nat \<Rightarrow> nat \<Rightarrow> 'a heap \<Rightarrow> (unit, 'a heap) outcome" where
  "move_loop T first d_first i 0 h = Done () h"
| "move_loop T first d_first i (Suc k) h =
     (case move_assign_at T (ptr_add d_first i) (ptr_add first i) h of
        Done u h' \<Rightarrow> move_loop T first d_first (Suc i) k h'
      | Thrown h' \<Rightarrow> Thrown h'
      | Terminated \<Rightarrow> Terminated
      | Undefined \<Rightarrow> Undefined)"

fun move_backward_loop ::
  "'a elem_ops \<Rightarrow> ptr \<Rightarrow> ptr \<Rightarrow> nat \<Rightarrow> 'a heap \<Rightarrow> (unit, 'a heap) outcome" where
  "move_backward_loop T first d_last 0 h = Done () h"
| "move_backward_loop T first d_last (Suc k) h =
     (case ptr_dec d_last of
        None \<Rightarrow> Undefined
      | Some d \<Rightarrow>
          (case move_assign_at T d (ptr_add first k) h of
             Done u h' \<Rightarrow> move_backward_loop T first d k h'
           | Thrown h' \<Rightarrow> Thrown h'
           | Terminated \<Rightarrow> Terminated
           | Undefined \<Rightarrow> Undefined))"

fun copy_assign_loop ::
  "'a elem_ops \<Rightarrow> ptr \<Rightarrow> ptr \<Rightarrow> nat \<Rightarrow> nat \<Rightarrow> 'a heap \<Rightarrow> (unit, 'a heap) outcome" where
  "copy_assign_loop T dst src i 0 h = Done () h"
| "copy_assign_loop T dst src i (Suc k) h =
     (case copy_assign_at T (ptr_add dst i) (ptr_add src i) h of
        Done u h' \<Rightarrow> copy_assign_loop T dst src (Suc i) k h'
      | Thrown h' \<Rightarrow> Thrown h'
      | Terminated \<Rightarrow> Terminated
      | Undefined \<Rightarrow> Undefined)"

section \<open>RawMemory\<close>

record RawMemory =
  buffer' :: ptr
  capacity' :: nat

fun fresh_addr :: "(nat \<times> 'b) list \<Rightarrow> nat" where
  "fresh_addr [] = 1"
| "fresh_addr (p # ps) = max (Suc (fst p)) (fresh_addr ps)"

fun live_values :: "'a slot list \<Rightarrow> 'a list" where
  "live_values [] = []"
| "live_values (Raw # ss) = live_values ss"
| "live_values (Live x # ss) = x # live_values ss"

text \<open>\<^verbatim>\<open>Allocate\<close> returns null for no slots and a block of raw slots at an unused address
  otherwise; the allocator is taken not to fail. \<^verbatim>\<open>Deallocate\<close> releases a block and
  runs no destructor; releasing what is no block start (a second release of the same
  block, say) is undefined.\<close>

definition Allocate :: "nat \<Rightarrow> 'a heap \<Rightarrow> ptr \<times> 'a heap" where
  "Allocate n h =
     (if n \<noteq> 0
      then (Ptr (fresh_addr (blocks h)) 0,
            h\<lparr>blocks := (fresh_addr (blocks h), replicate n Raw) # blocks h\<rparr>)
      else (Null, h))"

fun Deallocate :: "ptr \<Rightarrow> 'a heap \<Rightarrow> 'a heap option" where
  "Deallocate Null h = Some h"
| "Deallocate (Ptr b 0) h =
     (case map_of (blocks h) b of
        None \<Rightarrow> None
      | Some ss \<Rightarrow>
          Some (h\<lparr>blocks := AList.delete b (blocks h), leaked := leaked h @ live_values ss\<rparr>))"
| "Deallocate (Ptr b (Suc i)) h = None"

definition RawMemory_default :: RawMemory where
  "RawMemory_default = \<lparr>buffer' = Null, capacity' = 0\<rparr>"

definition RawMemory_ctor :: "nat \<Rightarrow> 'a heap \<Rightarrow> RawMemory \<times> 'a heap" where
  "RawMemory_ctor n h =
     (case Allocate n h of (p, h') \<Rightarrow> (\<lparr>buffer' = p, capacity' = n\<rparr>, h'))"

text \<open>A function declared \<^verbatim>\<open>noexcept\<close> that lets an exception escape terminates the
  program.\<close>

definition noexcept :: "('r, 's) outcome \<Rightarrow> ('r, 's) outcome" where
  "noexcept r = (case r of Thrown s \<Rightarrow> Terminated | _ \<Rightarrow> r)"

text \<open>The move constructor (lines 23 to 27): \<^verbatim>\<open>buffer_\<close> keeps its default member
  initialiser \<^verbatim>\<open>nullptr\<close>, \<^verbatim>\<open>capacity_\<close> is copied, and \<^verbatim>\<open>capacity_\<close> elements are
  move-constructed from the other block to \<^verbatim>\<open>buffer_\<close>. The other object is not
  written. The result is the constructed object.\<close>

definition RawMemory_move_ctor ::
  "'a elem_ops \<Rightarrow> RawMemory \<Rightarrow> 'a heap \<Rightarrow> (RawMemory, 'a heap) outcome" where
  "RawMemory_move_ctor T other h =
     (let this = \<lparr>buffer' = Null, capacity' = capacity' other\<rparr> in
      noexcept
        (case uninitialized_move_n T (buffer' other) (capacity' this) (buffer' this) h of
           Done u h' \<Rightarrow> Done this h'
         | Thrown h' \<Rightarrow> Thrown h'
         | Terminated \<Rightarrow> Terminated
         | Undefined \<Rightarrow> Undefined))"

text \<open>Move assignment (lines 29 to 33); the result is the assigned-to object.\<close>

definition RawMemory_move_assign ::
  "'a elem_ops \<Rightarrow> RawMemory \<Rightarrow> RawMemory \<Rightarrow> 'a heap \<Rightarrow> (RawMemory, 'a heap) outcome" where
  "RawMemory_move_assign T this rhs h =
     (let this1 = this\<lparr>capacity' := capacity' rhs\<rparr> in
      noexcept
        (case uninitialized_move_n T (buffer' rhs) (capacity' this1) (buffer' this1) h of
           Done u h' \<Rightarrow> Done this1 h'
         | Thrown h' \<Rightarrow> Thrown h'
         | Terminated \<Rightarrow> Terminated
         | Undefined \<Rightarrow> Undefined))"

definition RawMemory_dtor :: "RawMemory \<Rightarrow> 'a heap \<Rightarrow> 'a heap option" where
  "RawMemory_dtor m h = Deallocate (buffer' m) h"

definition RawMemory_plus :: "RawMemory \<Rightarrow> nat \<Rightarrow> ptr" where
  "RawMemory_plus m offset = ptr_add (buffer' m) offset"

definition RawMemory_Swap :: "RawMemory \<Rightarrow> RawMemory \<Rightarrow> RawMemory \<times> RawMemory" where
  "RawMemory_Swap this other = (other, this)"

definition GetAddress :: "RawMemory \<Rightarrow> ptr" where
  "GetAddress m = buffer' m"

section \<open>SimpleVector\<close>

record SimpleVector =
  data' :: RawMemory
  size' :: nat

definition Capacity :: "SimpleVector \<Rightarrow> nat" where
  "Capacity v = capacity' (data' v)"

definition vec_begin :: "SimpleVector \<Rightarrow> ptr" where
  "vec_begin v = GetAddress (data' v)"

definition vec_end :: "SimpleVector \<Rightarrow> ptr" where
  "vec_end v = RawMemory_plus (data' v) (size' v)"

text \<open>When an exception leaves a scope that holds the local \<^verbatim>\<open>new_data\<close>, its destructor
  releases the block and the exception propagates with the vector as it is.\<close>

definition unwind ::
  "RawMemory \<Rightarrow> SimpleVector \<Rightarrow> 'a heap \<Rightarrow> ('r, SimpleVector \<times> 'a heap) outcome" where
  "unwind new_data v h =
     (case RawMemory_dtor new_data h of None \<Rightarrow> Undefined | Some h' \<Rightarrow> Thrown (v, h'))"

definition SimpleVector_default :: SimpleVector where
  "SimpleVector_default = \<lparr>data' = RawMemory_default, size' = 0\<rparr>"

definition SimpleVector_sized ::
  "'a elem_ops \<Rightarrow> nat \<Rightarrow> 'a heap \<Rightarrow> (SimpleVector, 'a heap) outcome" where
  "SimpleVector_sized T n h =
     (case RawMemory_ctor n h of
        (d, h0) \<Rightarrow>
          (case uninitialized_value_construct_n T (GetAddress d) n h0 of
             Done u h1 \<Rightarrow> Done \<lparr>data' = d, size' = n\<rparr> h1
           | Thrown h1 \<Rightarrow>
               (case RawMemory_dtor d h1 of None \<Rightarrow> Undefined | Some h2 \<Rightarrow> Thrown h2)
           | Terminated \<Rightarrow> Terminated
           | Undefined \<Rightarrow> Undefined))"

definition SimpleVector_copy ::
  "'a elem_ops \<Rightarrow> SimpleVector \<Rightarrow> 'a heap \<Rightarrow> (SimpleVector, 'a heap) outcome" where
  "SimpleVector_copy T other h =
     (case RawMemory_ctor (size' other) h of
        (d, h0) \<Rightarrow>
          (case uninitialized_copy_n T (GetAddress (data' other)) (size' other) (GetAddress d) h0 of
             Done u h1 \<Rightarrow> Done \<lparr>data' = d, size' = size' other\<rparr> h1
           | Thrown h1 \<Rightarrow>
               (case RawMemory_dtor d h1 of None \<Rightarrow> Undefined | Some h2 \<Rightarrow> Thrown h2)
           | Terminated \<Rightarrow> Terminated
           | Undefined \<Rightarrow> Undefined))"

text \<open>\<^verbatim>\<open>Swap\<close> gives (this, other) after the exchange; the move constructor swaps a
  default-initialised object with the other one.\<close>

definition Swap :: "SimpleVector \<Rightarrow> SimpleVector \<Rightarrow> SimpleVector \<times> SimpleVector" where
  "Swap this other =
     (case RawMemory_Swap (data' this) (data' other) of
        (d, od) \<Rightarrow> (\<lparr>data' = d, size' = size' other\<rparr>, \<lparr>data' = od, size' = size' this\<rparr>))"

definition SimpleVector_move :: "SimpleVector \<Rightarrow> SimpleVector \<times> SimpleVector" where
  "SimpleVector_move other = Swap SimpleVector_default other"

definition SimpleVector_dtor :: "SimpleVector \<Rightarrow> 'a heap \<Rightarrow> 'a heap option" where
  "SimpleVector_dtor v h =
     (case destroy_n (GetAddress (data' v)) (size' v) h of
        None \<Rightarrow> None
      | Some h' \<Rightarrow> RawMemory_dtor (data' v) h')"

text \<open>Running an algorithm inside a member function: \<open>on_done\<close> continues after it
  returns, \<open>on_throw\<close> is what happens to the exception it throws (a handler, or the
  way out of the function).\<close>

definition on_outcome ::
  "(unit, 'a heap) outcome \<Rightarrow> ('a heap \<Rightarrow> ('r, 's) outcome) \<Rightarrow> ('a heap \<Rightarrow> ('r, 's) outcome)
     \<Rightarrow> ('r, 's) outcome" where
  "on_outcome r on_done on_throw =
     (case r of
        Done u h \<Rightarrow> on_done h
      | Thrown h \<Rightarrow> on_throw h
      | Terminated \<Rightarrow> Terminated
      | Undefined \<Rightarrow> Undefined)"

definition RawMemory_index :: "RawMemory \<Rightarrow> nat \<Rightarrow> ptr" where
  "RawMemory_index m i = ptr_add (buffer' m) i"

text \<open>The common tail of every reallocating path: \<^verbatim>\<open>std::destroy_n(data_.GetAddress(),
  size_); data_.Swap(new_data);\<close> and then the destructor of the local \<^verbatim>\<open>new_data\<close>,
  which by now holds the old block.\<close>

definition adopt :: "RawMemory \<Rightarrow> SimpleVector \<Rightarrow> 'a heap \<Rightarrow> (SimpleVector \<times> 'a heap) option" where
  "adopt new_data v h =
     (case destroy_n (GetAddress (data' v)) (size' v) h of
        None \<Rightarrow> None
      | Some h1 \<Rightarrow>
          (case RawMemory_Swap (data' v) new_data of
             (d, old) \<Rightarrow>
               (case RawMemory_dtor old h1 of
                  None \<Rightarrow> None
                | Some h2 \<Rightarrow> Some (v\<lparr>data' := d\<rparr>, h2))))"

text \<open>Copy assignment between two different objects (lines 140 to 157).\<close>

definition copy_assign_distinct ::
  "'a elem_ops \<Rightarrow> SimpleVector \<Rightarrow> SimpleVector \<Rightarrow> 'a heap
     \<Rightarrow> (unit, SimpleVector \<times> 'a heap) outcome" where
  "copy_assign_distinct T this rhs h =
     (if size' rhs > capacity' (data' this) then
        (case SimpleVector_copy T rhs h of
           Done rhs_copy h1 \<Rightarrow>
             (case Swap this rhs_copy of
                (this1, rhs_copy1) \<Rightarrow>
                  (case SimpleVector_dtor rhs_copy1 h1 of
                     None \<Rightarrow> Undefined
                   | Some h2 \<Rightarrow> Done () (this1, h2)))
         | Thrown h1 \<Rightarrow> Thrown (this, h1)
         | Terminated \<Rightarrow> Terminated
         | Undefined \<Rightarrow> Undefined)
      else if size' this > size' rhs then
        (case destroy_n (GetAddress (data' this)) (size' this - size' rhs) h of
           None \<Rightarrow> Undefined
         | Some h1 \<Rightarrow>
             on_outcome
               (copy_assign_loop T (buffer' (data' this)) (buffer' (data' rhs)) 0 (size' rhs) h1)
               (\<lambda>h2. Done () (this\<lparr>size' := size' rhs\<rparr>, h2))
               (\<lambda>h2. Thrown (this, h2)))
      else
        on_outcome
          (copy_assign_loop T (buffer' (data' this)) (buffer' (data' rhs)) 0 (size' this) h)
          (\<lambda>h1. on_outcome
                  (uninitialized_copy_n T (GetAddress (data' rhs)) (size' rhs - size' this)
                     (GetAddress (data' this)) h1)
                  (\<lambda>h2. Done () (this\<lparr>size' := size' rhs\<rparr>, h2))
                  (\<lambda>h2. Thrown (this, h2)))
          (\<lambda>h1. Thrown (this, h1)))"

text \<open>The two assignment operators compare the addresses of the objects, so they act
  on a store of vector objects: \<open>this\<close> and \<open>rhs\<close> are addresses.\<close>

definition assign_copy ::
  "'a elem_ops \<Rightarrow> nat \<Rightarrow> nat \<Rightarrow> (nat \<rightharpoonup> SimpleVector) \<Rightarrow> 'a heap
     \<Rightarrow> (unit, (nat \<rightharpoonup> SimpleVector) \<times> 'a heap) outcome" where
  "assign_copy T this rhs vs h =
     (if this \<noteq> rhs then
        (case (vs this, vs rhs) of
           (Some l, Some r) \<Rightarrow>
             (case copy_assign_distinct T l r h of
                Done u (l', h') \<Rightarrow> Done () (vs(this \<mapsto> l'), h')
              | Thrown (l', h') \<Rightarrow> Thrown (vs(this \<mapsto> l'), h')
              | Terminated \<Rightarrow> Terminated
              | Undefined \<Rightarrow> Undefined)
         | _ \<Rightarrow> Undefined)
      else Done () (vs, h))"

definition assign_move ::
  "nat \<Rightarrow> nat \<Rightarrow> (nat \<rightharpoonup> SimpleVector) \<Rightarrow> 'a heap
     \<Rightarrow> (unit, (nat \<rightharpoonup> SimpleVector) \<times> 'a heap) outcome" where
  "assign_move this rhs vs h =
     (if this \<noteq> rhs then
        (case (vs this, vs rhs) of
           (Some l, Some r) \<Rightarrow>
             (case Swap l r of (l', r') \<Rightarrow> Done () (vs(this \<mapsto> l', rhs \<mapsto> r'), h))
         | _ \<Rightarrow> Undefined)
      else Done () (vs, h))"

definition Reserve ::
  "'a elem_ops \<Rightarrow> nat \<Rightarrow> SimpleVector \<Rightarrow> 'a heap \<Rightarrow> (unit, SimpleVector \<times> 'a heap) outcome" where
  "Reserve T new_capacity v h =
     (if new_capacity \<le> capacity' (data' v) then Done () (v, h)
      else
        (case RawMemory_ctor new_capacity h of
           (new_data, h0) \<Rightarrow>
             on_outcome
               (if \<not> is_copy_constructible T \<or> is_nothrow_move_constructible T
                then uninitialized_move_n T (GetAddress (data' v)) (size' v) (GetAddress new_data) h0
                else uninitialized_copy_n T (GetAddress (data' v)) (size' v) (GetAddress new_data) h0)
               (\<lambda>h1. case adopt new_data v h1 of
                        None \<Rightarrow> Undefined
                      | Some (v1, h2) \<Rightarrow> Done () (v1, h2))
               (\<lambda>h1. unwind new_data v h1)))"

definition Resize ::
  "'a elem_ops \<Rightarrow> nat \<Rightarrow> SimpleVector \<Rightarrow> 'a heap \<Rightarrow> (unit, SimpleVector \<times> 'a heap) outcome" where
  "Resize T new_size v h =
     (if size' v > new_size then
        (case destroy_n (GetAddress (data' v)) (size' v - new_size) h of
           None \<Rightarrow> Undefined
         | Some h1 \<Rightarrow> Done () (v\<lparr>size' := new_size\<rparr>, h1))
      else if size' v < new_size then
        (case Reserve T new_size v h of
           Done u (v1, h1) \<Rightarrow>
             on_outcome
               (uninitialized_value_construct_n T (GetAddress (data' v1)) (new_size - size' v1) h1)
               (\<lambda>h2. Done () (v1\<lparr>size' := new_size\<rparr>, h2))
               (\<lambda>h2. Thrown (v1, h2))
         | Thrown s \<Rightarrow> Thrown s
         | Terminated \<Rightarrow> Terminated
         | Undefined \<Rightarrow> Undefined)
      else Done () (v\<lparr>size' := new_size\<rparr>, h))"

text \<open>\<^verbatim>\<open>PushBack(const T&)\<close>, \<^verbatim>\<open>PushBack(T&&)\<close> and \<^verbatim>\<open>EmplaceBack\<close> have the same body
  but for the expression that constructs the new element (a copy, a move, a constructor
  call), so the body is written once, with the result \<open>made\<close> of that expression.\<close>

definition append_body ::
  "'a elem_ops \<Rightarrow> 'a option \<Rightarrow> SimpleVector \<Rightarrow> 'a heap \<Rightarrow> (unit, SimpleVector \<times> 'a heap) outcome" where
  "append_body T made v h =
     (if size' v \<noteq> Capacity v then
        on_outcome (construct_from made (RawMemory_plus (data' v) (size' v)) h)
          (\<lambda>h1. Done () (v\<lparr>size' := size' v + 1\<rparr>, h1))
          (\<lambda>h1. Thrown (v, h1))
      else
        (case RawMemory_ctor (if size' v = 0 then 1 else size' v * 2) h of
           (new_data, h0) \<Rightarrow>
             on_outcome (construct_from made (RawMemory_plus new_data (size' v)) h0)
               (\<lambda>h1. on_outcome
                  (if is_copy_constructible T \<and> \<not> is_nothrow_move_constructible T
                   then uninitialized_copy_n T (GetAddress (data' v)) (size' v) (GetAddress new_data) h1
                   else uninitialized_move_n T (GetAddress (data' v)) (size' v) (GetAddress new_data) h1)
                  (\<lambda>h2. case adopt new_data v h2 of
                           None \<Rightarrow> Undefined
                         | Some (v1, h3) \<Rightarrow> Done () (v1\<lparr>size' := size' v1 + 1\<rparr>, h3))
                  (\<lambda>h2. unwind new_data v h2))
               (\<lambda>h1. unwind new_data v h1)))"

definition PushBack ::
  "'a elem_ops \<Rightarrow> 'a \<Rightarrow> SimpleVector \<Rightarrow> 'a heap \<Rightarrow> (unit, SimpleVector \<times> 'a heap) outcome" where
  "PushBack T x v h = append_body T (copy_ctor T x) v h"

definition PushBack_move ::
  "'a elem_ops \<Rightarrow> 'a \<Rightarrow> SimpleVector \<Rightarrow> 'a heap \<Rightarrow> (unit, SimpleVector \<times> 'a heap) outcome" where
  "PushBack_move T x v h = append_body T (map_option fst (move_ctor T x)) v h"

definition EmplaceBack ::
  "'a elem_ops \<Rightarrow> 'a option \<Rightarrow> SimpleVector \<Rightarrow> 'a heap \<Rightarrow> (ptr, SimpleVector \<times> 'a heap) outcome" where
  "EmplaceBack T made v h =
     (case append_body T made v h of
        Done u (v1, h1) \<Rightarrow> Done (RawMemory_index (data' v1) (size' v1 - 1)) (v1, h1)
      | Thrown s \<Rightarrow> Thrown s
      | Terminated \<Rightarrow> Terminated
      | Undefined \<Rightarrow> Undefined)"

definition PopBack :: "SimpleVector \<Rightarrow> 'a heap \<Rightarrow> (unit, SimpleVector \<times> 'a heap) outcome" where
  "PopBack v h =
     (case destroy_at (GetAddress (data' v)) h of
        None \<Rightarrow> Undefined
      | Some h1 \<Rightarrow> Done () (v\<lparr>size' := size_t_sub (size' v) 1\<rparr>, h1))"

text \<open>\<^verbatim>\<open>Emplace\<close>: \<open>pos\<close> is the distance of the position from \<^verbatim>\<open>cbegin()\<close>, \<open>made\<close> the
  result of \<^verbatim>\<open>T(std::forward<Args>(args)...)\<close>. In the first handler of the
  reallocating path the source calls the destructor of \<^verbatim>\<open>new_data\<close> itself and rethrows,
  after which the scope's own destructor call runs on the same object.\<close>

definition Emplace ::
  "'a elem_ops \<Rightarrow> nat \<Rightarrow> 'a option \<Rightarrow> SimpleVector \<Rightarrow> 'a heap
     \<Rightarrow> (ptr, SimpleVector \<times> 'a heap) outcome" where
  "Emplace T pos made v h =
     (if size' v < Capacity v then
        (if pos < size' v then
           (case made of
              None \<Rightarrow> Thrown (v, h)
            | Some t \<Rightarrow>
                on_outcome
                  (move_construct_at T (vec_end v) (RawMemory_index (data' v) (size' v - 1)) h)
                  (\<lambda>h1. on_outcome
                     (move_backward_loop T (ptr_add (vec_begin v) pos) (vec_end v)
                        (size' v - 1 - pos) h1)
                     (\<lambda>h2. on_outcome (move_assign_from T (RawMemory_index (data' v) pos) t h2)
                        (\<lambda>h3. Done (RawMemory_plus (data' v) pos) (v\<lparr>size' := size' v + 1\<rparr>, h3))
                        (\<lambda>h3. Thrown (v, h3)))
                     (\<lambda>h2. Thrown (v, h2)))
                  (\<lambda>h1. Thrown (v, h1)))
         else
           on_outcome (construct_from made (RawMemory_plus (data' v) pos) h)
             (\<lambda>h1. Done (RawMemory_plus (data' v) pos) (v\<lparr>size' := size' v + 1\<rparr>, h1))
             (\<lambda>h1. Thrown (v, h1)))
      else
        (case RawMemory_ctor (if size' v = 0 then 1 else size' v * 2) h of
           (new_data, h0) \<Rightarrow>
             on_outcome (construct_from made (RawMemory_plus new_data pos) h0)
               (\<lambda>h1. on_outcome
                  (if \<not> is_copy_constructible T \<or> is_nothrow_move_constructible T
                   then uninitialized_move_n T (GetAddress (data' v)) pos (GetAddress new_data) h1
                   else on_outcome
                          (uninitialized_copy_n T (GetAddress (data' v)) pos (GetAddress new_data) h1)
                          (\<lambda>h2. Done () h2)
                          (\<lambda>h2. case destroy_n (RawMemory_plus new_data pos) 1 h2 of
                                   None \<Rightarrow> Undefined
                                 | Some h3 \<Rightarrow> Thrown h3))
                  (\<lambda>h2. on_outcome
                     (on_outcome
                        (if \<not> is_copy_constructible T \<or> is_nothrow_move_constructible T
                         then uninitialized_move_n T (ptr_add (vec_begin v) pos)
                                (size_t_sub (size' v) pos) (ptr_add (RawMemory_plus new_data pos) 1) h2
                         else uninitialized_copy_n T (ptr_add (vec_begin v) pos)
                                (size_t_sub (size' v) pos) (ptr_add (RawMemory_plus new_data pos) 1) h2)
                        (\<lambda>h3. Done () h3)
                        (\<lambda>h3. case destroy_n (GetAddress new_data) pos h3 of
                                 None \<Rightarrow> Undefined
                               | Some h4 \<Rightarrow> Thrown h4))
                     (\<lambda>h3. case adopt new_data v h3 of
                              None \<Rightarrow> Undefined
                            | Some (v1, h4) \<Rightarrow>
                                Done (RawMemory_plus (data' v1) pos) (v1\<lparr>size' := size' v1 + 1\<rparr>, h4))
                     (\<lambda>h3. unwind new_data v h3))
                  (\<lambda>h2. unwind new_data v h2))
               (\<lambda>h1. case RawMemory_dtor new_data h1 of
                        None \<Rightarrow> Undefined
                      | Some h2 \<Rightarrow> unwind new_data v h2)))"

definition Insert ::
  "'a elem_ops \<Rightarrow> nat \<Rightarrow> 'a \<Rightarrow> SimpleVector \<Rightarrow> 'a heap \<Rightarrow> (ptr, SimpleVector \<times> 'a heap) outcome" where
  "Insert T pos x v h = Emplace T pos (copy_ctor T x) v h"

definition Insert_move ::
  "'a elem_ops \<Rightarrow> nat \<Rightarrow> 'a \<Rightarrow> SimpleVector \<Rightarrow> 'a heap \<Rightarrow> (ptr, SimpleVector \<times> 'a heap) outcome" where
  "Insert_move T pos x v h = Emplace T pos (map_option fst (move_ctor T x)) v h"

text \<open>\<^verbatim>\<open>Erase\<close>: when \<^verbatim>\<open>begin() + dist_to_pos + 1\<close> lies past \<^verbatim>\<open>end()\<close> the two do not
  bound a range and \<^verbatim>\<open>std::move\<close> is undefined.\<close>

definition Erase ::
  "'a elem_ops \<Rightarrow> nat \<Rightarrow> SimpleVector \<Rightarrow> 'a heap \<Rightarrow> (ptr, SimpleVector \<times> 'a heap) outcome" where
  "Erase T pos v h =
     (if size' v < pos + 1 then Undefined
      else
        on_outcome
          (move_loop T (ptr_add (ptr_add (vec_begin v) pos) 1) (ptr_add (vec_begin v) pos) 0
             (size' v - (pos + 1)) h)
          (\<lambda>h1. case ptr_dec (vec_end v) of
                   None \<Rightarrow> Undefined
                 | Some p \<Rightarrow>
                     (case destroy_n p 1 h1 of
                        None \<Rightarrow> Undefined
                      | Some h2 \<Rightarrow>
                          Done (ptr_add (vec_begin v) pos) (v\<lparr>size' := size_t_sub (size' v) 1\<rparr>, h2)))
          (\<lambda>h1. Thrown (v, h1)))"

section \<open>Element types and states used in the examples\<close>

text \<open>\<^verbatim>\<open>int\<close>: every operation succeeds and a moved-from \<^verbatim>\<open>int\<close> keeps its value.\<close>

definition int_ops :: "int elem_ops" where
  "int_ops =
     \<lparr>is_copy_constructible = True, is_nothrow_move_constructible = True,
      value_init = Some 0, copy_ctor = Some, move_ctor = (\<lambda>x. Some (x, x)),
      copy_asg = (\<lambda>t x. Some x), move_asg = (\<lambda>t x. Some (x, x))\<rparr>"

text \<open>An instrumented element type over \<^verbatim>\<open>int\<close> values: copyable, with a move
  constructor that is not \<^verbatim>\<open>noexcept\<close>; its copy and move constructors throw when
  asked to copy or move the value \<open>bad\<close>.\<close>

definition throwing_ops :: "int \<Rightarrow> int elem_ops" where
  "throwing_ops bad =
     \<lparr>is_copy_constructible = True, is_nothrow_move_constructible = False,
      value_init = Some 0, copy_ctor = (\<lambda>x. if x = bad then None else Some x),
      move_ctor = (\<lambda>x. if x = bad then None else Some (x, x)),
      copy_asg = (\<lambda>t x. Some x), move_asg = (\<lambda>t x. Some (x, x))\<rparr>"

definition empty_heap :: "'a heap" where
  "empty_heap = \<lparr>blocks = [], leaked = []\<rparr>"

text \<open>A vector that owns the block at address \<open>b\<close>.\<close>

definition vec_at :: "nat \<Rightarrow> nat \<Rightarrow> nat \<Rightarrow> SimpleVector" where
  "vec_at b cap n = \<lparr>data' = \<lparr>buffer' = Ptr b 0, capacity' = cap\<rparr>, size' = n\<rparr>"

section \<open>What a vector holds, and well-behaved element types\<close>

text \<open>\<open>holds h v xs\<close>: in heap \<open>h\<close> the vector \<open>v\<close> is in a valid state and its elements
  are \<open>xs\<close>. Its size is the length of \<open>xs\<close>; with no block its capacity is zero;
  otherwise its block has capacity slots, the first of them live with the values
  \<open>xs\<close> in order and the rest raw.\<close>

definition holds :: "'a heap \<Rightarrow> SimpleVector \<Rightarrow> 'a list \<Rightarrow> bool" where
  "holds h v xs =
     (size' v = length xs \<and>
      (case buffer' (data' v) of
         Null \<Rightarrow> capacity' (data' v) = 0 \<and> xs = []
       | Ptr b i \<Rightarrow>
           i = 0 \<and> length xs \<le> capacity' (data' v) \<and>
           map_of (blocks h) b =
             Some (map Live xs @ replicate (capacity' (data' v) - length xs) Raw)))"

text \<open>An element type preserves values when a copy or a move that returns yields the
  value of its source. Its operations may still throw.\<close>

definition value_preserving :: "'a elem_ops \<Rightarrow> bool" where
  "value_preserving T =
     ((\<forall>x y. copy_ctor T x = Some y \<longrightarrow> y = x) \<and>
      (\<forall>x y r. move_ctor T x = Some (y, r) \<longrightarrow> y = x) \<and>
      (\<forall>t x y. copy_asg T t x = Some y \<longrightarrow> y = x) \<and>
      (\<forall>t x y r. move_asg T t x = Some (y, r) \<longrightarrow> y = x))"

text \<open>An element type does not throw when each of its operations returns.\<close>

definition nothrow :: "'a elem_ops \<Rightarrow> bool" where
  "nothrow T =
     (value_init T \<noteq> None \<and>
      (\<forall>x. copy_ctor T x \<noteq> None) \<and>
      (\<forall>x. move_ctor T x \<noteq> None) \<and>
      (\<forall>t x. copy_asg T t x \<noteq> None) \<and>
      (\<forall>t x. move_asg T t x \<noteq> None))"

text \<open>A sequence of \<^verbatim>\<open>push_back\<close> calls, each through either overload; it is \<open>Done\<close>
  when every call returned.\<close>

datatype 'a push = ByCopy 'a | ByMove 'a

fun pushed :: "'a push \<Rightarrow> 'a" where
  "pushed (ByCopy x) = x"
| "pushed (ByMove x) = x"

fun push_back ::
  "'a elem_ops \<Rightarrow> 'a push \<Rightarrow> SimpleVector \<Rightarrow> 'a heap \<Rightarrow> (unit, SimpleVector \<times> 'a heap) outcome" where
  "push_back T (ByCopy x) v h = PushBack T x v h"
| "push_back T (ByMove x) v h = PushBack_move T x v h"

fun push_back_all ::
  "'a elem_ops \<Rightarrow> 'a push list \<Rightarrow> SimpleVector \<Rightarrow> 'a heap
     \<Rightarrow> (unit, SimpleVector \<times> 'a heap) outcome" where
  "push_back_all T [] v h = Done () (v, h)"
| "push_back_all T (c # cs) v h =
     (case push_back T c v h of
        Done u (v1, h1) \<Rightarrow> push_back_all T cs v1 h1
      | Thrown s \<Rightarrow> Thrown s
      | Terminated \<Rightarrow> Terminated
      | Undefined \<Rightarrow> Undefined)"

section \<open>Programs: sequences of operations on a store of vectors\<close>

text \<open>\<open>after r\<close> is the state in which a call leaves the program, whether it returned
  or threw.\<close>

definition after :: "('r, 's) outcome \<Rightarrow> 's option" where
  "after r = (case r of Done u s \<Rightarrow> Some s | Thrown s \<Rightarrow> Some s | _ \<Rightarrow> None)"

text \<open>\<open>reachable T vs h\<close>: some sequence of operations of the container, each called
  under its precondition, leads from the empty program state to the vector objects
  \<open>vs\<close> (by address) and the heap \<open>h\<close>.\<close>

inductive reachable :: "'a elem_ops \<Rightarrow> (nat \<rightharpoonup> SimpleVector) \<Rightarrow> 'a heap \<Rightarrow> bool"
  for T :: "'a elem_ops" where
  r_start: "reachable T Map.empty empty_heap"
| r_default: "reachable T vs h \<Longrightarrow> vs a = None \<Longrightarrow> reachable T (vs(a \<mapsto> SimpleVector_default)) h"
| r_sized: "reachable T vs h \<Longrightarrow> vs a = None \<Longrightarrow> SimpleVector_sized T n h = Done v h'
     \<Longrightarrow> reachable T (vs(a \<mapsto> v)) h'"
| r_sized_throws: "reachable T vs h \<Longrightarrow> SimpleVector_sized T n h = Thrown h' \<Longrightarrow> reachable T vs h'"
| r_copy: "reachable T vs h \<Longrightarrow> vs a = None \<Longrightarrow> vs b = Some w
     \<Longrightarrow> SimpleVector_copy T w h = Done v h' \<Longrightarrow> reachable T (vs(a \<mapsto> v)) h'"
| r_copy_throws: "reachable T vs h \<Longrightarrow> vs b = Some w \<Longrightarrow> SimpleVector_copy T w h = Thrown h'
     \<Longrightarrow> reachable T vs h'"
| r_move: "reachable T vs h \<Longrightarrow> vs a = None \<Longrightarrow> vs b = Some w
     \<Longrightarrow> SimpleVector_move w = (v, w') \<Longrightarrow> reachable T (vs(a \<mapsto> v, b \<mapsto> w')) h"
| r_assign_copy: "reachable T vs h \<Longrightarrow> after (assign_copy T a b vs h) = Some (vs', h')
     \<Longrightarrow> reachable T vs' h'"
| r_assign_move: "reachable T vs h \<Longrightarrow> after (assign_move a b vs h) = Some (vs', h')
     \<Longrightarrow> reachable T vs' h'"
| r_swap: "reachable T vs h \<Longrightarrow> vs a = Some v \<Longrightarrow> vs b = Some w \<Longrightarrow> Swap v w = (v', w')
     \<Longrightarrow> reachable T (vs(a \<mapsto> v', b \<mapsto> w')) h"
| r_reserve: "reachable T vs h \<Longrightarrow> vs a = Some v \<Longrightarrow> after (Reserve T n v h) = Some (v', h')
     \<Longrightarrow> reachable T (vs(a \<mapsto> v')) h'"
| r_resize: "reachable T vs h \<Longrightarrow> vs a = Some v \<Longrightarrow> after (Resize T n v h) = Some (v', h')
     \<Longrightarrow> reachable T (vs(a \<mapsto> v')) h'"
| r_push_back: "reachable T vs h \<Longrightarrow> vs a = Some v \<Longrightarrow> after (push_back T c v h) = Some (v', h')
     \<Longrightarrow> reachable T (vs(a \<mapsto> v')) h'"
| r_emplace_back: "reachable T vs h \<Longrightarrow> vs a = Some v
     \<Longrightarrow> after (EmplaceBack T made v h) = Some (v', h') \<Longrightarrow> reachable T (vs(a \<mapsto> v')) h'"
| r_emplace: "reachable T vs h \<Longrightarrow> vs a = Some v \<Longrightarrow> pos \<le> size' v
     \<Longrightarrow> after (Emplace T pos made v h) = Some (v', h') \<Longrightarrow> reachable T (vs(a \<mapsto> v')) h'"
| r_insert: "reachable T vs h \<Longrightarrow> vs a = Some v \<Longrightarrow> pos \<le> size' v
     \<Longrightarrow> after (Insert T pos x v h) = Some (v', h') \<Longrightarrow> reachable T (vs(a \<mapsto> v')) h'"
| r_insert_move: "reachable T vs h \<Longrightarrow> vs a = Some v \<Longrightarrow> pos \<le> size' v
     \<Longrightarrow> after (Insert_move T pos x v h) = Some (v', h') \<Longrightarrow> reachable T (vs(a \<mapsto> v')) h'"
| r_pop_back: "reachable T vs h \<Longrightarrow> vs a = Some v \<Longrightarrow> 0 < size' v
     \<Longrightarrow> after (PopBack v h) = Some (v', h') \<Longrightarrow> reachable T (vs(a \<mapsto> v')) h'"
| r_erase: "reachable T vs h \<Longrightarrow> vs a = Some v \<Longrightarrow> pos < size' v
     \<Longrightarrow> after (Erase T pos v h) = Some (v', h') \<Longrightarrow> reachable T (vs(a \<mapsto> v')) h'"
| r_dtor: "reachable T vs h \<Longrightarrow> vs a = Some v \<Longrightarrow> SimpleVector_dtor v h = Some h'
     \<Longrightarrow> reachable T (vs(a := None)) h'"

text \<open>The blocks of a heap as a map from addresses.\<close>

abbreviation bm :: "'a heap \<Rightarrow> nat \<rightharpoonup> 'a slot list" where
  "bm h \<equiv> map_of (blocks h)"

text \<open>Every vector object of the store has its size within its capacity.\<close>

definition all_fit :: "(nat \<rightharpoonup> SimpleVector) \<Rightarrow> bool" where
  "all_fit vs = (\<forall>a v. vs a = Some v \<longrightarrow> size' v \<le> Capacity v)"

section \<open>Allocation and release\<close>

lemma fresh_addr_above: "p \<in> set bs \<Longrightarrow> fst p < fresh_addr bs"
  by (induction bs) auto

lemma fresh_addr_fresh: "fresh_addr bs \<notin> fst ` set bs"
  using fresh_addr_above by fastforce

lemma live_values_replicate_Raw: "live_values (replicate n Raw) = []"
  by (induction n) auto

lemma Allocate_Deallocate: "Allocate n h = (p, h0) \<Longrightarrow> Deallocate p h0 = Some h"
  by (auto simp: Allocate_def fresh_addr_fresh live_values_replicate_Raw split: if_splits)

lemma unwind_fresh:
  "RawMemory_ctor n h = (new_data, h0) \<Longrightarrow> unwind new_data v h0 = Thrown (v, h)"
  by (auto simp: RawMemory_ctor_def unwind_def RawMemory_dtor_def
      dest: Allocate_Deallocate split: prod.splits)

lemma append_body_ctor_throws: "append_body T None v h = Thrown (v, h)"
  by (auto simp: append_body_def on_outcome_def construct_from_def unwind_fresh
      split: prod.splits)

section \<open>Sizes and capacities\<close>

lemma RawMemory_ctor_capacity: "RawMemory_ctor n h = (d, h') \<Longrightarrow> capacity' d = n"
  by (auto simp: RawMemory_ctor_def split: prod.splits)

lemma adopt_vec: "adopt nd v h = Some (v', h') \<Longrightarrow> v' = v\<lparr>data' := nd\<rparr>"
  by (auto simp: adopt_def RawMemory_Swap_def split: option.splits)

lemma unwind_vec: "after (unwind nd v h) = Some (v', h') \<Longrightarrow> v' = v"
  by (auto simp: unwind_def after_def split: option.splits)

lemma Reserve_Done:
  "Reserve T n v h = Done u (v', h') \<Longrightarrow> size' v' = size' v \<and> n \<le> Capacity v' \<and> Capacity v \<le> Capacity v'"
  by (auto simp: Reserve_def Capacity_def on_outcome_def unwind_def
      dest!: adopt_vec RawMemory_ctor_capacity split: if_splits prod.splits outcome.splits option.splits)

lemma Reserve_Thrown: "Reserve T n v h = Thrown (v', h') \<Longrightarrow> v' = v"
  by (auto simp: Reserve_def Capacity_def on_outcome_def unwind_def
      dest!: adopt_vec split: if_splits prod.splits outcome.splits option.splits)

lemma Reserve_inv:
  "after (Reserve T n v h) = Some (v', h') \<Longrightarrow> size' v \<le> Capacity v \<Longrightarrow> size' v' \<le> Capacity v'"
  by (auto simp: after_def dest: Reserve_Done Reserve_Thrown split: outcome.splits)

lemma Resize_inv:
  "after (Resize T n v h) = Some (v', h') \<Longrightarrow> size' v \<le> Capacity v \<Longrightarrow> size' v' \<le> Capacity v'"
  by (auto simp: after_def Resize_def on_outcome_def Capacity_def dest!: Reserve_Done Reserve_Thrown
        split: outcome.splits if_splits option.splits)

lemma append_body_inv:
  "after (append_body T made v h) = Some (v', h') \<Longrightarrow> size' v \<le> Capacity v \<Longrightarrow> size' v' \<le> Capacity v'"
  by (auto simp: after_def append_body_def on_outcome_def Capacity_def unwind_def
        dest!: adopt_vec RawMemory_ctor_capacity
        split: outcome.splits if_splits option.splits prod.splits)

lemma Emplace_inv:
  "after (Emplace T pos made v h) = Some (v', h') \<Longrightarrow> size' v \<le> Capacity v \<Longrightarrow> size' v' \<le> Capacity v'"
  by (auto simp: after_def Emplace_def on_outcome_def Capacity_def unwind_def
        dest!: adopt_vec RawMemory_ctor_capacity
        split: outcome.splits if_splits option.splits prod.splits)


lemma PopBack_inv:
  "after (PopBack v h) = Some (v', h') \<Longrightarrow> 0 < size' v \<Longrightarrow> size' v \<le> Capacity v \<Longrightarrow> size' v' \<le> Capacity v'"
  by (auto simp: after_def PopBack_def Capacity_def size_t_sub_def split: option.splits)

lemma Erase_inv:
  "after (Erase T pos v h) = Some (v', h') \<Longrightarrow> size' v \<le> Capacity v \<Longrightarrow> size' v' \<le> Capacity v'"
  by (auto simp: after_def Erase_def Capacity_def size_t_sub_def on_outcome_def split: option.splits outcome.splits if_splits)

lemma SimpleVector_sized_inv: "SimpleVector_sized T n h = Done v h' \<Longrightarrow> size' v \<le> Capacity v"
  by (auto simp: SimpleVector_sized_def Capacity_def dest!: RawMemory_ctor_capacity split: option.splits outcome.splits prod.splits)

lemma SimpleVector_copy_inv: "SimpleVector_copy T w h = Done v h' \<Longrightarrow> size' v \<le> Capacity v"
  by (auto simp: SimpleVector_copy_def Capacity_def dest!: RawMemory_ctor_capacity split: option.splits outcome.splits prod.splits)

lemma Swap_inv: "Swap v w = (v', w') \<Longrightarrow> size' v \<le> Capacity v \<Longrightarrow> size' w \<le> Capacity w \<Longrightarrow> size' v' \<le> Capacity v' \<and> size' w' \<le> Capacity w'"
  by (auto simp: Swap_def RawMemory_Swap_def Capacity_def)

lemma copy_assign_distinct_inv:
  "after (copy_assign_distinct T l r h) = Some (l', h') \<Longrightarrow> size' l \<le> Capacity l \<Longrightarrow> size' l' \<le> Capacity l'"
  by (auto simp: after_def copy_assign_distinct_def on_outcome_def Capacity_def Swap_def RawMemory_Swap_def 
       dest!: SimpleVector_copy_inv split: option.splits outcome.splits if_splits prod.splits)

lemma all_fit_upd: "all_fit vs \<Longrightarrow> size' v \<le> Capacity v \<Longrightarrow> all_fit (vs(a \<mapsto> v))"
  by (auto simp: all_fit_def)

lemma all_fit_get: "all_fit vs \<Longrightarrow> vs a = Some v \<Longrightarrow> size' v \<le> Capacity v"
  by (auto simp: all_fit_def)


lemma after_DoneI: "r = Done u s \<Longrightarrow> after r = Some s"
  by (simp add: after_def)

lemma after_ThrownI: "r = Thrown s \<Longrightarrow> after r = Some s"
  by (simp add: after_def)

lemma assign_copy_inv:
  assumes "after (assign_copy T a b vs h) = Some (vs', h')" and "all_fit vs"
  shows "all_fit vs'"
proof (cases "a = b")
  case True
  with assms show ?thesis by (simp add: assign_copy_def after_def)
next
  case False
  with assms(1) obtain l r l' where l: "vs a = Some l" and "vs b = Some r"
    and step: "after (copy_assign_distinct T l r h) = Some (l', h')" and vs': "vs' = vs(a \<mapsto> l')"
    by (auto simp: assign_copy_def after_def split: option.splits outcome.splits prod.splits)
  from all_fit_get [OF assms(2) l] have "size' l \<le> Capacity l" .
  with step have "size' l' \<le> Capacity l'" by (rule copy_assign_distinct_inv)
  with assms(2) vs' show ?thesis by (blast intro: all_fit_upd)
qed

lemma assign_move_inv:
  assumes "after (assign_move a b vs h) = Some (vs', h')" and "all_fit vs"
  shows "all_fit vs'"
proof (cases "a = b")
  case True
  with assms show ?thesis by (simp add: assign_move_def after_def)
next
  case False
  with assms(1) obtain l r l' r' where l: "vs a = Some l" and r: "vs b = Some r"
    and sw: "Swap l r = (l', r')" and vs': "vs' = vs(a \<mapsto> l', b \<mapsto> r')"
    by (auto simp: assign_move_def after_def split: option.splits prod.splits)
  from Swap_inv [OF sw all_fit_get [OF assms(2) l] all_fit_get [OF assms(2) r]]
  have "size' l' \<le> Capacity l'" and "size' r' \<le> Capacity r'" by simp_all
  with assms(2) vs' show ?thesis by (blast intro: all_fit_upd)
qed

lemma push_back_inv:
  "after (push_back T c v h) = Some (v', h') \<Longrightarrow> size' v \<le> Capacity v \<Longrightarrow> size' v' \<le> Capacity v'"
  by (cases c) (auto simp: PushBack_def PushBack_move_def dest: append_body_inv)

lemma EmplaceBack_inv:
  "after (EmplaceBack T made v h) = Some (v', h') \<Longrightarrow> size' v \<le> Capacity v \<Longrightarrow> size' v' \<le> Capacity v'"
  by (auto simp: EmplaceBack_def after_def split: outcome.splits
      dest: append_body_inv [OF after_DoneI] append_body_inv [OF after_ThrownI])

lemma Insert_inv:
  "after (Insert T pos x v h) = Some (v', h') \<Longrightarrow> size' v \<le> Capacity v \<Longrightarrow> size' v' \<le> Capacity v'"
  unfolding Insert_def by (rule Emplace_inv)

lemma Insert_move_inv:
  "after (Insert_move T pos x v h) = Some (v', h') \<Longrightarrow> size' v \<le> Capacity v \<Longrightarrow> size' v' \<le> Capacity v'"
  unfolding Insert_move_def by (rule Emplace_inv)

lemma reachable_all_fit: "reachable T vs h \<Longrightarrow> all_fit vs"
proof (induction rule: reachable.induct)
  case r_start
  show ?case by (simp add: all_fit_def)
next
  case (r_default vs h a)
  have "size' SimpleVector_default \<le> Capacity SimpleVector_default"
    by (simp add: SimpleVector_default_def RawMemory_default_def Capacity_def)
  with r_default.IH show ?case by (rule all_fit_upd)
next
  case (r_move vs h a b w v w')
  from r_move.hyps(4) have "Swap SimpleVector_default w = (v, w')"
    by (simp add: SimpleVector_move_def)
  from Swap_inv [OF this _ all_fit_get [OF r_move.IH r_move.hyps(3)]]
  have "size' v \<le> Capacity v" and "size' w' \<le> Capacity w'"
    by (simp_all add: SimpleVector_default_def RawMemory_default_def Capacity_def)
  with r_move.IH show ?case by (blast intro: all_fit_upd)
next
  case (r_swap vs h a v b w v' w')
  from Swap_inv [OF r_swap.hyps(4) all_fit_get [OF r_swap.IH r_swap.hyps(2)]
      all_fit_get [OF r_swap.IH r_swap.hyps(3)]]
  have "size' v' \<le> Capacity v'" and "size' w' \<le> Capacity w'" by simp_all
  with r_swap.IH show ?case by (blast intro: all_fit_upd)
next
  case (r_dtor vs h a v h')
  then show ?case by (auto simp: all_fit_def)
qed (blast intro: all_fit_upd
      dest: all_fit_get SimpleVector_sized_inv SimpleVector_copy_inv assign_copy_inv
        assign_move_inv Reserve_inv Resize_inv push_back_inv EmplaceBack_inv Emplace_inv
        Insert_inv Insert_move_inv PopBack_inv Erase_inv)+

section \<open>Effects of the primitives on blocks\<close>

lemma store_block:
  "bm h b = Some ss \<Longrightarrow> bm (store (Ptr b i) s h) = (bm h)(b \<mapsto> ss[i := s])"
  by (simp add: map_of_map_entry)

lemma read_obj_Some:
  "read_obj h (Ptr b i) = Some x \<Longrightarrow> bm h b = Some ss \<Longrightarrow> i < length ss \<and> ss ! i = Live x"
  by (auto simp: read_obj_def split: option.splits slot.splits if_splits)

lemma read_obj_block:
  "read_obj h (Ptr b i) = Some x \<Longrightarrow> \<exists>ss. bm h b = Some ss"
  by (auto simp: read_obj_def split: option.splits slot.splits if_splits)

lemma construct_at_Some:
  "construct_at (Ptr b i) x h = Some h' \<Longrightarrow> bm h b = Some ss \<Longrightarrow>
     i < length ss \<and> bm h' = (bm h)(b \<mapsto> ss[i := Live x])"
  by (auto simp: construct_at_def map_of_map_entry split: option.splits slot.splits if_splits)

lemma construct_at_block:
  "construct_at (Ptr b i) x h = Some h' \<Longrightarrow> \<exists>ss. bm h b = Some ss"
  by (auto simp: construct_at_def split: option.splits slot.splits if_splits)

lemma destroy_at_Some:
  "destroy_at (Ptr b i) h = Some h' \<Longrightarrow> bm h b = Some ss \<Longrightarrow>
     i < length ss \<and> (\<exists>y. ss ! i = Live y) \<and> bm h' = (bm h)(b \<mapsto> ss[i := Raw])"
  by (auto simp: destroy_at_def map_of_map_entry split: option.splits slot.splits if_splits)

lemma destroy_at_block:
  "destroy_at (Ptr b i) h = Some h' \<Longrightarrow> \<exists>ss. bm h b = Some ss"
  by (auto simp: destroy_at_def split: option.splits slot.splits if_splits)

lemma destroy_loop_Some:
  "destroy_loop (Ptr b p0) i k h = Some h' \<Longrightarrow> bm h b = Some ss \<Longrightarrow>
     \<exists>ss'. bm h' = (bm h)(b \<mapsto> ss') \<and> length ss' = length ss \<and>
       (\<forall>j<length ss. ss' ! j = (if p0 + i \<le> j \<and> j < p0 + i + k then Raw else ss ! j))"
proof (induction k arbitrary: i h ss)
  case 0
  then show ?case by (auto intro!: exI[of _ ss])
next
  case (Suc k)
  from Suc.prems obtain h1 where d: "destroy_at (Ptr b (p0 + i)) h = Some h1"
    and l: "destroy_loop (Ptr b p0) (Suc i) k h1 = Some h'"
    by (auto split: option.splits)
  from destroy_at_Some [OF d Suc.prems(2)]
  have i: "p0 + i < length ss" and h1: "bm h1 = (bm h)(b \<mapsto> ss[p0 + i := Raw])" by auto
  from h1 have "bm h1 b = Some (ss[p0 + i := Raw])" by simp
  from Suc.IH [OF l this] obtain ss' where
    "bm h' = (bm h1)(b \<mapsto> ss')" "length ss' = length ss"
    "\<forall>j<length ss. ss' ! j = (if p0 + Suc i \<le> j \<and> j < p0 + Suc i + k then Raw else ss[p0 + i := Raw] ! j)"
    by (metis length_list_update)
  with h1 i show ?case
    by (intro exI[of _ ss']) (auto simp: nth_list_update)
qed

lemma destroy_loop_Null: "destroy_loop Null i k h = Some h' \<Longrightarrow> k = 0 \<and> h' = h"
  by (cases k) (auto simp: destroy_at_def)


lemma uninitialized_move_loop_Done:
  assumes "uninitialized_move_loop T (Ptr bs s0) (Ptr bd d0) i k h = Done u h'"
    and "value_preserving T" and "bs \<noteq> bd"
    and "bm h bs = Some ss" and "bm h bd = Some ds"
  shows "\<exists>ss' ds'. bm h' = (bm h)(bs \<mapsto> ss', bd \<mapsto> ds') \<and>
           length ss' = length ss \<and> length ds' = length ds \<and>
           (k = 0 \<or> (s0 + i + k \<le> length ss \<and> d0 + i + k \<le> length ds)) \<and>
           (\<forall>j<length ss. \<not> (s0 + i \<le> j \<and> j < s0 + i + k) \<longrightarrow> ss' ! j = ss ! j) \<and>
           (\<forall>j<length ds. ds' ! j =
              (if d0 + i \<le> j \<and> j < d0 + i + k then ss ! (s0 + (j - d0)) else ds ! j))"
  using assms
proof (induction k arbitrary: i h ss ds)
  case 0
  then have "h' = h" by simp
  with 0 show ?case
    by (intro exI[of _ ss] exI[of _ ds]) (auto simp: fun_eq_iff)
next
  case (Suc k)
  from Suc.prems(1) obtain x y r h2 where
    rd: "read_obj h (Ptr bs (s0 + i)) = Some x" and mv: "move_ctor T x = Some (y, r)"
    and cs: "construct_at (Ptr bd (d0 + i)) y (store (Ptr bs (s0 + i)) (Live r) h) = Some h2"
    and l: "uninitialized_move_loop T (Ptr bs s0) (Ptr bd d0) (Suc i) k h2 = Done u h'"
    by (auto split: option.splits prod.splits)
  from mv Suc.prems(2) have y: "y = x" by (auto simp: value_preserving_def)
  from read_obj_Some [OF rd Suc.prems(4)]
  have si: "s0 + i < length ss" and sx: "ss ! (s0 + i) = Live x" by auto
  let ?h1 = "store (Ptr bs (s0 + i)) (Live r) h"
  let ?ss1 = "ss[s0 + i := Live r]"
  let ?ds1 = "ds[d0 + i := Live x]"
  have h1: "bm ?h1 = (bm h)(bs \<mapsto> ?ss1)" by (rule store_block [OF Suc.prems(4)])
  with Suc.prems have h1d: "bm ?h1 bd = Some ds" by simp
  from construct_at_Some [OF cs h1d] y
  have di: "d0 + i < length ds" and h2: "bm h2 = (bm ?h1)(bd \<mapsto> ?ds1)" by auto
  from h1 h2 Suc.prems(3) have h2s: "bm h2 bs = Some ?ss1" and h2d: "bm h2 bd = Some ?ds1"
    by auto
  from Suc.IH [OF l Suc.prems(2,3) h2s h2d] obtain ss' ds' where
    1: "bm h' = (bm h2)(bs \<mapsto> ss', bd \<mapsto> ds')"
    and 2: "length ss' = length ss" "length ds' = length ds"
    and 3: "k = 0 \<or> (s0 + Suc i + k \<le> length ss \<and> d0 + Suc i + k \<le> length ds)"
    and 4: "\<forall>j<length ss. \<not> (s0 + Suc i \<le> j \<and> j < s0 + Suc i + k) \<longrightarrow> ss' ! j = ?ss1 ! j"
    and 5: "\<forall>j<length ds. ds' ! j =
              (if d0 + Suc i \<le> j \<and> j < d0 + Suc i + k then ?ss1 ! (s0 + (j - d0)) else ?ds1 ! j)"
    by (metis (no_types, lifting) length_list_update)
  have a: "bm h' = (bm h)(bs \<mapsto> ss', bd \<mapsto> ds')"
    unfolding 1 h2 h1 by (rule ext) simp
  have b: "s0 + i + Suc k \<le> length ss \<and> d0 + i + Suc k \<le> length ds"
    using 3 si di by auto
  have c: "\<forall>j<length ss. \<not> (s0 + i \<le> j \<and> j < s0 + i + Suc k) \<longrightarrow> ss' ! j = ss ! j"
    using 4 by (auto simp: nth_list_update)
  have d: "\<forall>j<length ds. ds' ! j =
              (if d0 + i \<le> j \<and> j < d0 + i + Suc k then ss ! (s0 + (j - d0)) else ds ! j)"
  proof (intro allI impI)
    fix j assume j: "j < length ds"
    show "ds' ! j = (if d0 + i \<le> j \<and> j < d0 + i + Suc k then ss ! (s0 + (j - d0)) else ds ! j)"
    proof (cases "j = d0 + i")
      case True
      with 5 j sx show ?thesis by simp
    next
      case False
      with 5 j show ?thesis by (auto simp: nth_list_update)
    qed
  qed
  from a b c d 2 show ?case by blast
qed


lemma uninitialized_copy_loop_Done:
  assumes "uninitialized_copy_loop T (Ptr bs s0) (Ptr bd d0) i k h = Done u h'"
    and "value_preserving T" and "bs \<noteq> bd"
    and "bm h bs = Some ss" and "bm h bd = Some ds"
  shows "\<exists>ss' ds'. bm h' = (bm h)(bs \<mapsto> ss', bd \<mapsto> ds') \<and>
           length ss' = length ss \<and> length ds' = length ds \<and>
           (k = 0 \<or> (s0 + i + k \<le> length ss \<and> d0 + i + k \<le> length ds)) \<and>
           (\<forall>j<length ss. \<not> (s0 + i \<le> j \<and> j < s0 + i + k) \<longrightarrow> ss' ! j = ss ! j) \<and>
           (\<forall>j<length ds. ds' ! j =
              (if d0 + i \<le> j \<and> j < d0 + i + k then ss ! (s0 + (j - d0)) else ds ! j))"
  using assms
proof (induction k arbitrary: i h ds)
  case 0
  then have "h' = h" by simp
  with 0 show ?case
    by (intro exI[of _ ss] exI[of _ ds]) (auto simp: fun_eq_iff)
next
  case (Suc k)
  from Suc.prems(1) obtain x y h2 where
    rd: "read_obj h (Ptr bs (s0 + i)) = Some x" and cp: "copy_ctor T x = Some y"
    and cs: "construct_at (Ptr bd (d0 + i)) y h = Some h2"
    and l: "uninitialized_copy_loop T (Ptr bs s0) (Ptr bd d0) (Suc i) k h2 = Done u h'"
    by (auto split: option.splits prod.splits)
  from cp Suc.prems(2) have y: "y = x" by (auto simp: value_preserving_def)
  from read_obj_Some [OF rd Suc.prems(4)]
  have si: "s0 + i < length ss" and sx: "ss ! (s0 + i) = Live x" by auto
  let ?ds1 = "ds[d0 + i := Live x]"
  from construct_at_Some [OF cs Suc.prems(5)] y
  have di: "d0 + i < length ds" and h2: "bm h2 = (bm h)(bd \<mapsto> ?ds1)" by auto
  from h2 Suc.prems(3,4) have h2s: "bm h2 bs = Some ss" and h2d: "bm h2 bd = Some ?ds1"
    by auto
  from Suc.IH [OF l Suc.prems(2,3) h2s h2d] obtain ss' ds' where
    1: "bm h' = (bm h2)(bs \<mapsto> ss', bd \<mapsto> ds')"
    and 2: "length ss' = length ss" "length ds' = length ds"
    and 3: "k = 0 \<or> (s0 + Suc i + k \<le> length ss \<and> d0 + Suc i + k \<le> length ds)"
    and 4: "\<forall>j<length ss. \<not> (s0 + Suc i \<le> j \<and> j < s0 + Suc i + k) \<longrightarrow> ss' ! j = ss ! j"
    and 5: "\<forall>j<length ds. ds' ! j =
              (if d0 + Suc i \<le> j \<and> j < d0 + Suc i + k then ss ! (s0 + (j - d0)) else ?ds1 ! j)"
    by (metis (no_types, lifting) length_list_update)
  have a: "bm h' = (bm h)(bs \<mapsto> ss', bd \<mapsto> ds')"
    unfolding 1 h2 by (rule ext) simp
  have b: "s0 + i + Suc k \<le> length ss \<and> d0 + i + Suc k \<le> length ds"
    using 3 si di by auto
  have c: "\<forall>j<length ss. \<not> (s0 + i \<le> j \<and> j < s0 + i + Suc k) \<longrightarrow> ss' ! j = ss ! j"
    using 4 by auto
  have d: "\<forall>j<length ds. ds' ! j =
              (if d0 + i \<le> j \<and> j < d0 + i + Suc k then ss ! (s0 + (j - d0)) else ds ! j)"
  proof (intro allI impI)
    fix j assume j: "j < length ds"
    show "ds' ! j = (if d0 + i \<le> j \<and> j < d0 + i + Suc k then ss ! (s0 + (j - d0)) else ds ! j)"
    proof (cases "j = d0 + i")
      case True
      with 5 j sx show ?thesis by simp
    next
      case False
      with 5 j show ?thesis by (auto simp: nth_list_update)
    qed
  qed
  from a b c d 2 show ?case by blast
qed

text \<open>Frames: an operation on one block leaves every other block alone.\<close>

lemma store_frame: "b' \<noteq> b \<Longrightarrow> bm (store (Ptr b i) s h) b' = bm h b'"
  by (simp add: map_of_map_entry)

lemma destroy_at_frame: "destroy_at (Ptr b i) h = Some h' \<Longrightarrow> b' \<noteq> b \<Longrightarrow> bm h' b' = bm h b'"
  by (auto simp: destroy_at_def map_of_map_entry split: option.splits slot.splits)

lemma destroy_loop_frame:
  "destroy_loop (Ptr b p0) i k h = Some h' \<Longrightarrow> b' \<noteq> b \<Longrightarrow> bm h' b' = bm h b'"
proof (induction k arbitrary: i h)
  case 0
  then show ?case by simp
next
  case (Suc k)
  from Suc.prems(1) obtain h1 where d: "destroy_at (Ptr b (p0 + i)) h = Some h1"
    and l: "destroy_loop (Ptr b p0) (Suc i) k h1 = Some h'"
    by (auto split: option.splits)
  from Suc.IH [OF l Suc.prems(2)] destroy_at_frame [OF d Suc.prems(2)] show ?case by simp
qed

lemma Deallocate_frame: "Deallocate (Ptr b i) h = Some h' \<Longrightarrow> b' \<noteq> b \<Longrightarrow> bm h' b' = bm h b'"
  by (cases i) (auto simp: AList.delete_conv' split: option.splits)

lemma adopt_frame:
  assumes "adopt nd v h = Some (v1, h1)" and "\<And>i. buffer' (data' v) \<noteq> Ptr a i"
  shows "bm h1 a = bm h a" and "v1 = v\<lparr>data' := nd\<rparr>"
proof -
  from assms(1) obtain h0 where d: "destroy_n (buffer' (data' v)) (size' v) h = Some h0"
    and f: "Deallocate (buffer' (data' v)) h0 = Some h1" and v1: "v1 = v\<lparr>data' := nd\<rparr>"
    by (auto simp: adopt_def GetAddress_def RawMemory_Swap_def RawMemory_dtor_def
        split: option.splits)
  show "v1 = v\<lparr>data' := nd\<rparr>" by (rule v1)
  show "bm h1 a = bm h a"
  proof (cases "buffer' (data' v)")
    case Null
    with d f show ?thesis by (auto simp: destroy_n_def dest: destroy_loop_Null)
  next
    case (Ptr b i)
    with assms(2) have ab: "a \<noteq> b" by auto
    from d Ptr have "bm h0 a = bm h a"
      unfolding destroy_n_def by (simp add: destroy_loop_frame [OF _ ab])
    moreover from f Ptr have "bm h1 a = bm h0 a"
      by (simp add: Deallocate_frame [OF _ ab])
    ultimately show ?thesis by simp
  qed
qed

lemma fresh_addr_unused: "bm h (fresh_addr (blocks h)) = None"
  using fresh_addr_fresh [of "blocks h"] by (simp add: map_of_eq_None_iff)

lemma RawMemory_ctor_block:
  assumes "RawMemory_ctor n h = (nd, h0)" and "n \<noteq> 0"
  shows "\<exists>a. nd = \<lparr>buffer' = Ptr a 0, capacity' = n\<rparr> \<and> bm h a = None \<and>
           bm h0 = (bm h)(a \<mapsto> replicate n Raw)"
  using assms fresh_addr_unused [of h]
  by (intro exI[of _ "fresh_addr (blocks h)"])
     (auto simp: RawMemory_ctor_def Allocate_def fun_eq_iff split: prod.splits)

section \<open>Appending\<close>

lemma holdsI:
  assumes "buffer' (data' v) = Ptr b 0" and "size' v = length xs"
    and "bm h b = Some ss" and "length ss = capacity' (data' v)"
    and "length xs \<le> length ss"
    and "\<And>j. j < length xs \<Longrightarrow> ss ! j = Live (xs ! j)"
    and "\<And>j. length xs \<le> j \<Longrightarrow> j < length ss \<Longrightarrow> ss ! j = Raw"
  shows "holds h v xs"
proof -
  have "ss = map Live xs @ replicate (capacity' (data' v) - length xs) Raw"
    using assms(4-7) by (intro nth_equalityI) (auto simp: nth_append)
  with assms(1-5) show ?thesis by (simp add: holds_def)
qed

lemma update_at_size:
  "length xs < c \<Longrightarrow>
     (map Live xs @ replicate (c - length xs) Raw)[length xs := Live x]
       = map Live (xs @ [x]) @ replicate (c - Suc (length xs)) Raw"
  by (cases "c - length xs") (auto simp: list_update_append)

lemma relocate_Done:
  assumes "(if c then uninitialized_copy_n T (Ptr bs s0) k (Ptr bd d0) h
            else uninitialized_move_n T (Ptr bs s0) k (Ptr bd d0) h) = Done u h'"
    and "value_preserving T" and "bs \<noteq> bd"
    and "bm h bs = Some ss" and "bm h bd = Some ds"
  shows "\<exists>ss' ds'. bm h' = (bm h)(bs \<mapsto> ss', bd \<mapsto> ds') \<and>
           length ss' = length ss \<and> length ds' = length ds \<and>
           (k = 0 \<or> (s0 + k \<le> length ss \<and> d0 + k \<le> length ds)) \<and>
           (\<forall>j<length ss. \<not> (s0 \<le> j \<and> j < s0 + k) \<longrightarrow> ss' ! j = ss ! j) \<and>
           (\<forall>j<length ds. ds' ! j =
              (if d0 \<le> j \<and> j < d0 + k then ss ! (s0 + (j - d0)) else ds ! j))"
proof (cases c)
  case True
  with assms(1) have "uninitialized_copy_loop T (Ptr bs s0) (Ptr bd d0) 0 k h = Done u h'"
    by (simp add: uninitialized_copy_n_def)
  from uninitialized_copy_loop_Done [OF this assms(2-5)] show ?thesis by simp
next
  case False
  with assms(1) have "uninitialized_move_loop T (Ptr bs s0) (Ptr bd d0) 0 k h = Done u h'"
    by (simp add: uninitialized_move_n_def)
  from uninitialized_move_loop_Done [OF this assms(2-5)] show ?thesis by simp
qed

lemma relocate_Null:
  "(if c then uninitialized_copy_n T Null k d h else uninitialized_move_n T Null k d h) = Done u h'
     \<Longrightarrow> k = 0 \<and> h' = h"
  by (cases k) (auto simp: uninitialized_copy_n_def uninitialized_move_n_def read_obj_def split: if_splits)

lemma append_body_full:
  assumes "append_body T (Some x) v h = Done u (v', h')" and "size' v = Capacity v"
    and "RawMemory_ctor (if size' v = 0 then 1 else size' v * 2) h = (nd, h0)"
  shows "\<exists>h1 h2 v1.
           construct_at (RawMemory_plus nd (size' v)) x h0 = Some h1 \<and>
           (if is_copy_constructible T \<and> \<not> is_nothrow_move_constructible T
            then uninitialized_copy_n T (GetAddress (data' v)) (size' v) (GetAddress nd) h1
            else uninitialized_move_n T (GetAddress (data' v)) (size' v) (GetAddress nd) h1)
             = Done () h2 \<and>
           adopt nd v h2 = Some (v1, h') \<and> v' = v1\<lparr>size' := size' v1 + 1\<rparr>"
  using assms unfolding append_body_def on_outcome_def construct_from_def unwind_def
  by (auto split: option.splits outcome.splits prod.splits split del: if_split)

lemma append_body_holds:
  assumes vp: "value_preserving T" and hv: "holds h v xs"
    and run: "append_body T (Some x) v h = Done u (v', h')"
  shows "holds h' v' (xs @ [x]) \<and> Capacity v \<le> Capacity v'"
proof -
  let ?n = "length xs" and ?c = "capacity' (data' v)"
  from hv have n: "size' v = ?n" by (simp add: holds_def)
  show ?thesis
  proof (cases "size' v \<noteq> Capacity v")
    case True
    with hv obtain b where buf: "buffer' (data' v) = Ptr b 0" and le: "?n < ?c"
      and blk: "bm h b = Some (map Live xs @ replicate (?c - ?n) Raw)"
      by (auto simp: holds_def Capacity_def split: ptr.splits)
    from run True buf n have c: "construct_at (Ptr b ?n) x h = Some h'"
      and v': "v' = v\<lparr>size' := ?n + 1\<rparr>"
      by (auto simp: append_body_def on_outcome_def construct_from_def RawMemory_plus_def
          split: option.splits)
    from construct_at_Some [OF c blk] update_at_size [OF le]
    have "bm h' b = Some (map Live (xs @ [x]) @ replicate (?c - Suc ?n) Raw)" by simp
    with v' buf le show ?thesis by (simp add: holds_def Capacity_def)
  next
    case False
    define N where "N = (if size' v = 0 then 1 else size' v * 2)"
    have N0: "N \<noteq> 0" and Nn: "?n < N" using n by (auto simp: N_def)
    obtain nd h0 where ctor: "RawMemory_ctor N h = (nd, h0)" by (cases "RawMemory_ctor N h")
    from RawMemory_ctor_block [OF ctor N0] obtain a where
      nd: "nd = \<lparr>buffer' = Ptr a 0, capacity' = N\<rparr>" and fresh: "bm h a = None"
      and h0: "bm h0 = (bm h)(a \<mapsto> replicate N Raw)" by blast
    from append_body_full [OF run _ ctor [unfolded N_def]] False obtain h1 h2 v1 where
      c0: "construct_at (RawMemory_plus nd (size' v)) x h0 = Some h1"
      and rel0: "(if is_copy_constructible T \<and> \<not> is_nothrow_move_constructible T
                 then uninitialized_copy_n T (GetAddress (data' v)) (size' v) (GetAddress nd) h1
                 else uninitialized_move_n T (GetAddress (data' v)) (size' v) (GetAddress nd) h1)
                = Done () h2"
      and ad: "adopt nd v h2 = Some (v1, h')" and v': "v' = v1\<lparr>size' := size' v1 + 1\<rparr>"
      by blast
    from c0 have c: "construct_at (Ptr a ?n) x h0 = Some h1"
      by (simp add: nd RawMemory_plus_def n)
    from rel0 have rel: "(if is_copy_constructible T \<and> \<not> is_nothrow_move_constructible T
                 then uninitialized_copy_n T (buffer' (data' v)) (size' v) (Ptr a 0) h1
                 else uninitialized_move_n T (buffer' (data' v)) (size' v) (Ptr a 0) h1) = Done () h2"
      by (auto simp: nd GetAddress_def split: if_splits)
    let ?ds1 = "(replicate N Raw)[?n := Live x]"
    from h0 have "bm h0 a = Some (replicate N Raw)" by simp
    from construct_at_Some [OF c this] have h1: "bm h1 = (bm h0)(a \<mapsto> ?ds1)" by simp
    have nb: "\<And>i. buffer' (data' v) \<noteq> Ptr a i"
      using hv fresh by (auto simp: holds_def split: ptr.splits)
    from adopt_frame [OF ad nb] have h': "bm h' a = bm h2 a" and v1: "v1 = v\<lparr>data' := nd\<rparr>"
      by auto
    have "\<exists>ds'. bm h2 a = Some ds' \<and> length ds' = N \<and>
            (\<forall>j<N. ds' ! j = (if j < ?n then Live (xs ! j) else ?ds1 ! j))"
    proof (cases "buffer' (data' v)")
      case Null
      from relocate_Null [OF rel [unfolded Null]] have "h2 = h1" by simp
      with h1 Null hv show ?thesis by (auto simp: holds_def)
    next
      case (Ptr b i)
      with hv have i: "i = 0" and blk: "bm h b = Some (map Live xs @ replicate (?c - ?n) Raw)"
        by (auto simp: holds_def)
      with fresh have ab: "b \<noteq> a" by auto
      with h0 h1 blk have s: "bm h1 b = Some (map Live xs @ replicate (?c - ?n) Raw)"
        and d: "bm h1 a = Some ?ds1" by auto
      from relocate_Done [OF rel [unfolded Ptr i n] vp ab s d] obtain ss' ds' where
        "bm h2 = (bm h1)(b \<mapsto> ss', a \<mapsto> ds')" "length ds' = length ?ds1"
        "\<forall>j<length ?ds1. ds' ! j =
           (if 0 \<le> j \<and> j < 0 + ?n then (map Live xs @ replicate (?c - ?n) Raw) ! (0 + (j - 0))
            else ?ds1 ! j)"
        by blast
      then show ?thesis
        by (intro exI[of _ ds']) (auto simp: nth_append)
    qed
    then obtain ds' where ds': "bm h2 a = Some ds'" "length ds' = N"
      "\<forall>j<N. ds' ! j = (if j < ?n then Live (xs ! j) else ?ds1 ! j)" by blast
    have "holds h' v' (xs @ [x])"
    proof (rule holdsI [where b = a and ss = ds'])
      show "buffer' (data' v') = Ptr a 0" by (simp add: v' v1 nd)
      show "size' v' = length (xs @ [x])" by (simp add: v' v1 n)
      show "bm h' a = Some ds'" by (simp add: h' ds')
      show "length ds' = capacity' (data' v')" by (simp add: v' v1 nd ds')
      show "length (xs @ [x]) \<le> length ds'" using Nn by (simp add: ds')
    next
      fix j assume "j < length (xs @ [x])"
      with ds' Nn show "ds' ! j = Live ((xs @ [x]) ! j)"
        by (auto simp: nth_append nth_list_update less_Suc_eq)
    next
      fix j assume "length (xs @ [x]) \<le> j" "j < length ds'"
      with ds' show "ds' ! j = Raw" by (auto simp: nth_list_update)
    qed
    moreover have "Capacity v \<le> Capacity v'"
      using False Nn n by (simp add: Capacity_def v' v1 nd)
    ultimately show ?thesis by simp
  qed
qed

section \<open>Shifting inside a block\<close>

lemma vp_copy_ctor: "value_preserving T \<Longrightarrow> copy_ctor T x = Some y \<Longrightarrow> y = x"
  unfolding value_preserving_def by blast

lemma vp_move_ctor: "value_preserving T \<Longrightarrow> move_ctor T x = Some (y, r) \<Longrightarrow> y = x"
  unfolding value_preserving_def by blast

lemma vp_move_asg: "value_preserving T \<Longrightarrow> move_asg T t x = Some (y, r) \<Longrightarrow> y = x"
  unfolding value_preserving_def by blast

lemma move_assign_at_Done:
  assumes "move_assign_at T (Ptr b d) (Ptr b s) h = Done u h'" and "value_preserving T"
    and "bm h b = Some ss"
  shows "\<exists>x r. d < length ss \<and> s < length ss \<and> ss ! s = Live x \<and>
           bm h' = (bm h)(b \<mapsto> ss[s := Live r, d := Live x])"
proof -
  from assms(1) obtain t x t' r where rd: "read_obj h (Ptr b d) = Some t"
    and rs: "read_obj h (Ptr b s) = Some x" and mv: "move_asg T t x = Some (t', r)"
    and h': "h' = store (Ptr b d) (Live t') (store (Ptr b s) (Live r) h)"
    by (auto simp: move_assign_at_def split: option.splits prod.splits)
  from vp_move_asg [OF assms(2) mv] have t': "t' = x" .
  from read_obj_Some [OF rd assms(3)] read_obj_Some [OF rs assms(3)]
  have d: "d < length ss" and s: "s < length ss" and x: "ss ! s = Live x" by auto
  have "bm (store (Ptr b s) (Live r) h) = (bm h)(b \<mapsto> ss[s := Live r])"
    by (rule store_block [OF assms(3)])
  then have "bm h' = ((bm h)(b \<mapsto> ss[s := Live r]))(b \<mapsto> ss[s := Live r, d := Live x])"
    unfolding h' t' by (subst store_block) auto
  with d s x show ?thesis by auto
qed

lemma move_loop_shift_left:
  assumes "move_loop T (Ptr b (Suc f)) (Ptr b f) i k h = Done u h'" and "value_preserving T"
    and "bm h b = Some ss"
  shows "\<exists>ss'. bm h' = (bm h)(b \<mapsto> ss') \<and> length ss' = length ss \<and>
           (k = 0 \<or> f + i + k < length ss) \<and>
           (\<forall>j<length ss. (f + i \<le> j \<and> j < f + i + k \<longrightarrow> ss' ! j = ss ! Suc j) \<and>
                           (j < f + i \<or> f + i + k < j \<longrightarrow> ss' ! j = ss ! j))"
  using assms
proof (induction k arbitrary: i h ss)
  case 0
  then have "h' = h" by simp
  with 0 show ?case by (intro exI[of _ ss]) (auto simp: fun_eq_iff)
next
  case (Suc k)
  from Suc.prems(1) obtain h1 where
    st: "move_assign_at T (Ptr b (f + i)) (Ptr b (Suc f + i)) h = Done () h1"
    and l: "move_loop T (Ptr b (Suc f)) (Ptr b f) (Suc i) k h1 = Done u h'"
    by (auto split: outcome.splits)
  from move_assign_at_Done [OF st Suc.prems(2,3)] obtain x r where
    b: "Suc f + i < length ss" and x: "ss ! (Suc f + i) = Live x"
    and h1: "bm h1 = (bm h)(b \<mapsto> ss[Suc f + i := Live r, f + i := Live x])" by blast
  let ?ss1 = "ss[Suc f + i := Live r, f + i := Live x]"
  from h1 have "bm h1 b = Some ?ss1" by simp
  from Suc.IH [OF l Suc.prems(2) this] obtain ss' where
    1: "bm h' = (bm h1)(b \<mapsto> ss')" and 2: "length ss' = length ss"
    and 3: "k = 0 \<or> f + Suc i + k < length ss"
    and 4: "\<forall>j<length ss. (f + Suc i \<le> j \<and> j < f + Suc i + k \<longrightarrow> ss' ! j = ?ss1 ! Suc j) \<and>
                           (j < f + Suc i \<or> f + Suc i + k < j \<longrightarrow> ss' ! j = ?ss1 ! j)"
    by (metis (no_types, lifting) length_list_update)
  have a: "bm h' = (bm h)(b \<mapsto> ss')" unfolding 1 h1 by simp
  have c: "f + i + Suc k < length ss" using 3 b by auto
  have d: "\<forall>j<length ss. (f + i \<le> j \<and> j < f + i + Suc k \<longrightarrow> ss' ! j = ss ! Suc j) \<and>
                           (j < f + i \<or> f + i + Suc k < j \<longrightarrow> ss' ! j = ss ! j)"
  proof (intro allI impI)
    fix j assume j: "j < length ss"
    show "(f + i \<le> j \<and> j < f + i + Suc k \<longrightarrow> ss' ! j = ss ! Suc j) \<and>
          (j < f + i \<or> f + i + Suc k < j \<longrightarrow> ss' ! j = ss ! j)"
    proof (cases "j = f + i")
      case True
      with 4 j x b show ?thesis by (simp add: nth_list_update)
    next
      case False
      with 4 j c show ?thesis by (auto simp: nth_list_update)
    qed
  qed
  from a 2 c d show ?case by blast
qed

lemma move_backward_loop_shift_right:
  assumes "move_backward_loop T (Ptr b f) (Ptr b (Suc (f + k))) k h = Done u h'"
    and "value_preserving T" and "bm h b = Some ss"
  shows "\<exists>ss'. bm h' = (bm h)(b \<mapsto> ss') \<and> length ss' = length ss \<and>
           (k = 0 \<or> f + k < length ss) \<and>
           (\<forall>j<length ss. (f < j \<and> j \<le> f + k \<longrightarrow> ss' ! j = ss ! (j - 1)) \<and>
                           (j < f \<or> f + k < j \<longrightarrow> ss' ! j = ss ! j))"
  using assms
proof (induction k arbitrary: h ss)
  case 0
  then have "h' = h" by simp
  with 0 show ?case by (intro exI[of _ ss]) (auto simp: fun_eq_iff)
next
  case (Suc k)
  from Suc.prems(1) obtain h1 where
    st: "move_assign_at T (Ptr b (Suc (f + k))) (Ptr b (f + k)) h = Done () h1"
    and l: "move_backward_loop T (Ptr b f) (Ptr b (Suc (f + k))) k h1 = Done u h'"
    by (auto split: outcome.splits)
  from move_assign_at_Done [OF st Suc.prems(2,3)] obtain x r where
    b: "Suc (f + k) < length ss" and x: "ss ! (f + k) = Live x"
    and h1: "bm h1 = (bm h)(b \<mapsto> ss[f + k := Live r, Suc (f + k) := Live x])" by blast
  let ?ss1 = "ss[f + k := Live r, Suc (f + k) := Live x]"
  from h1 have "bm h1 b = Some ?ss1" by simp
  from Suc.IH [OF l Suc.prems(2) this] obtain ss' where
    1: "bm h' = (bm h1)(b \<mapsto> ss')" and 2: "length ss' = length ss"
    and 4: "\<forall>j<length ss. (f < j \<and> j \<le> f + k \<longrightarrow> ss' ! j = ?ss1 ! (j - 1)) \<and>
                           (j < f \<or> f + k < j \<longrightarrow> ss' ! j = ?ss1 ! j)"
    by (metis (no_types, lifting) length_list_update)
  have a: "bm h' = (bm h)(b \<mapsto> ss')" unfolding 1 h1 by simp
  have d: "\<forall>j<length ss. (f < j \<and> j \<le> f + Suc k \<longrightarrow> ss' ! j = ss ! (j - 1)) \<and>
                           (j < f \<or> f + Suc k < j \<longrightarrow> ss' ! j = ss ! j)"
  proof (intro allI impI)
    fix j assume j: "j < length ss"
    show "(f < j \<and> j \<le> f + Suc k \<longrightarrow> ss' ! j = ss ! (j - 1)) \<and>
          (j < f \<or> f + Suc k < j \<longrightarrow> ss' ! j = ss ! j)"
    proof (cases "j = Suc (f + k)")
      case True
      with 4 j x b show ?thesis by (simp add: nth_list_update)
    next
      case False
      with 4 j b show ?thesis by (auto simp: nth_list_update)
    qed
  qed
  from a 2 b d show ?case by auto
qed

section \<open>Erasing\<close>

lemma move_construct_at_Done:
  assumes "move_construct_at T (Ptr b d) (Ptr b s) h = Done u h'" and "value_preserving T"
    and "bm h b = Some ss"
  shows "\<exists>x r. d < length ss \<and> s < length ss \<and> ss ! s = Live x \<and>
           bm h' = (bm h)(b \<mapsto> ss[s := Live r, d := Live x])"
proof -
  from assms(1) obtain x y r where rs: "read_obj h (Ptr b s) = Some x"
    and mv: "move_ctor T x = Some (y, r)"
    and c: "construct_at (Ptr b d) y (store (Ptr b s) (Live r) h) = Some h'"
    by (auto simp: move_construct_at_def split: option.splits prod.splits)
  from vp_move_ctor [OF assms(2) mv] have y: "y = x" .
  from read_obj_Some [OF rs assms(3)] have s: "s < length ss" and x: "ss ! s = Live x" by auto
  have 1: "bm (store (Ptr b s) (Live r) h) = (bm h)(b \<mapsto> ss[s := Live r])"
    by (rule store_block [OF assms(3)])
  then have "bm (store (Ptr b s) (Live r) h) b = Some (ss[s := Live r])" by simp
  from construct_at_Some [OF c this] 1 y s x show ?thesis by auto
qed

lemma move_assign_from_Done:
  assumes "move_assign_from T (Ptr b d) x h = Done u h'" and "value_preserving T"
    and "bm h b = Some ss"
  shows "d < length ss \<and> bm h' = (bm h)(b \<mapsto> ss[d := Live x])"
proof -
  from assms(1) obtain t t' r where rd: "read_obj h (Ptr b d) = Some t"
    and mv: "move_asg T t x = Some (t', r)" and h': "h' = store (Ptr b d) (Live t') h"
    by (auto simp: move_assign_from_def split: option.splits prod.splits)
  from vp_move_asg [OF assms(2) mv] have "t' = x" .
  with read_obj_Some [OF rd assms(3)] h' store_block [OF assms(3)] show ?thesis by auto
qed

lemma Erase_steps:
  assumes "Erase T pos v h = Done p (v', h')" and "buffer' (data' v) = Ptr b 0"
    and "size' v = Suc m" and "pos \<le> m"
  shows "\<exists>h1. move_loop T (Ptr b (Suc pos)) (Ptr b pos) 0 (m - pos) h = Done () h1 \<and>
           destroy_loop (Ptr b m) 0 1 h1 = Some h' \<and> v' = v\<lparr>size' := m\<rparr>"
  using assms
  by (auto simp: Erase_def on_outcome_def vec_begin_def vec_end_def GetAddress_def
      RawMemory_plus_def destroy_n_def size_t_sub_def
      split: outcome.splits option.splits if_splits)

lemma Erase_holds:
  assumes vp: "value_preserving T" and hv: "holds h v xs" and pos: "pos < length xs"
    and run: "Erase T pos v h = Done p (v', h')"
  shows "holds h' v' (take pos xs @ drop (Suc pos) xs)"
proof -
  let ?c = "capacity' (data' v)"
  let ?ss = "map Live xs @ replicate (?c - length xs) Raw"
  from pos obtain m where m: "length xs = Suc m" by (cases xs) auto
  from hv pos obtain b where buf: "buffer' (data' v) = Ptr b 0" and n: "size' v = length xs"
    and le: "length xs \<le> ?c" and blk: "bm h b = Some ?ss"
    by (auto simp: holds_def split: ptr.splits)
  from pos m have pm: "pos \<le> m" by simp
  from Erase_steps [OF run buf n [unfolded m] pm] obtain h1 where
    mv: "move_loop T (Ptr b (Suc pos)) (Ptr b pos) 0 (m - pos) h = Done () h1"
    and ds: "destroy_loop (Ptr b m) 0 1 h1 = Some h'" and v': "v' = v\<lparr>size' := m\<rparr>" by blast
  from move_loop_shift_left [OF mv vp blk] pm obtain ss1 where
    h1: "bm h1 = (bm h)(b \<mapsto> ss1)" and l1: "length ss1 = length ?ss"
    and s1: "\<forall>j<length ?ss. (pos \<le> j \<and> j < m \<longrightarrow> ss1 ! j = ?ss ! Suc j) \<and>
                             (j < pos \<or> m < j \<longrightarrow> ss1 ! j = ?ss ! j)"
    by auto
  from h1 have "bm h1 b = Some ss1" by simp
  from destroy_loop_Some [OF ds this] obtain ss2 where
    h2: "bm h' = (bm h1)(b \<mapsto> ss2)" and l2: "length ss2 = length ss1"
    and s2: "\<forall>j<length ss1. ss2 ! j = (if m \<le> j \<and> j < Suc m then Raw else ss1 ! j)"
    by auto
  have len: "length ?ss = ?c" using le by simp
  have l1c: "length ss1 = ?c" using l1 le by simp
  show ?thesis
  proof (rule holdsI [where b = b and ss = ss2])
    show "buffer' (data' v') = Ptr b 0" by (simp add: v' buf)
    show "size' v' = length (take pos xs @ drop (Suc pos) xs)" using m pm by (simp add: v')
    show "bm h' b = Some ss2" by (simp add: h2)
    show "length ss2 = capacity' (data' v')" by (simp add: l2 l1c v')
    show "length (take pos xs @ drop (Suc pos) xs) \<le> length ss2"
      using le m by (simp add: l2 l1c)
  next
    fix j assume "j < length (take pos xs @ drop (Suc pos) xs)"
    with m pm have j: "j < m" by simp
    with le m have jl: "j < length ss1" "j < length ?ss" "Suc j < length xs"
      by (simp_all add: l1c)
    show "ss2 ! j = Live ((take pos xs @ drop (Suc pos) xs) ! j)"
    proof (cases "j < pos")
      case True
      with s1 s2 j jl m show ?thesis by (simp add: nth_append)
    next
      case False
      with s1 s2 j jl m pm show ?thesis by (simp add: nth_append min_def)
    qed
  next
    fix j assume a: "length (take pos xs @ drop (Suc pos) xs) \<le> j" "j < length ss2"
    with m pm have j: "m \<le> j" "j < ?c" by (simp_all add: l2 l1c)
    with s1 s2 m l1c le show "ss2 ! j = Raw" by (auto simp: nth_append)
  qed
qed

section \<open>Emplacing\<close>

lemma relocate_Done':
  assumes "(if c then uninitialized_move_n T (Ptr bs s0) k (Ptr bd d0) h
            else uninitialized_copy_n T (Ptr bs s0) k (Ptr bd d0) h) = Done u h'"
    and "value_preserving T" and "bs \<noteq> bd"
    and "bm h bs = Some ss" and "bm h bd = Some ds"
  shows "\<exists>ss' ds'. bm h' = (bm h)(bs \<mapsto> ss', bd \<mapsto> ds') \<and>
           length ss' = length ss \<and> length ds' = length ds \<and>
           (k = 0 \<or> (s0 + k \<le> length ss \<and> d0 + k \<le> length ds)) \<and>
           (\<forall>j<length ss. \<not> (s0 \<le> j \<and> j < s0 + k) \<longrightarrow> ss' ! j = ss ! j) \<and>
           (\<forall>j<length ds. ds' ! j =
              (if d0 \<le> j \<and> j < d0 + k then ss ! (s0 + (j - d0)) else ds ! j))"
proof -
  from assms(1) have "(if \<not> c then uninitialized_copy_n T (Ptr bs s0) k (Ptr bd d0) h
            else uninitialized_move_n T (Ptr bs s0) k (Ptr bd d0) h) = Done u h'"
    by (simp split: if_splits)
  from relocate_Done [OF this assms(2-5)] show ?thesis .
qed

lemma relocate_Null':
  "(if c then uninitialized_move_n T Null k d h else uninitialized_copy_n T Null k d h) = Done u h'
     \<Longrightarrow> k = 0 \<and> h' = h"
  by (cases k) (auto simp: uninitialized_copy_n_def uninitialized_move_n_def read_obj_def split: if_splits)

lemma Emplace_shift_steps:
  assumes "Emplace T pos (Some t) v h = Done p (v', h')" and "size' v < Capacity v"
    and "pos < size' v" and "buffer' (data' v) = Ptr b 0" and "size' v = Suc m"
  shows "\<exists>h1 h2. move_construct_at T (Ptr b (Suc m)) (Ptr b m) h = Done () h1 \<and>
           move_backward_loop T (Ptr b pos) (Ptr b (Suc m)) (m - pos) h1 = Done () h2 \<and>
           move_assign_from T (Ptr b pos) t h2 = Done () h' \<and> v' = v\<lparr>size' := Suc (Suc m)\<rparr>"
  using assms
  by (auto simp: Emplace_def on_outcome_def vec_begin_def vec_end_def GetAddress_def
      RawMemory_plus_def RawMemory_index_def
      split: outcome.splits)

lemma Emplace_end_steps:
  assumes "Emplace T pos (Some t) v h = Done p (v', h')" and "size' v < Capacity v"
    and "\<not> pos < size' v" and "buffer' (data' v) = Ptr b 0"
  shows "construct_at (Ptr b pos) t h = Some h' \<and> v' = v\<lparr>size' := Suc (size' v)\<rparr>"
  using assms
  by (auto simp: Emplace_def on_outcome_def construct_from_def RawMemory_plus_def
      split: outcome.splits option.splits)

lemma Emplace_full_steps:
  assumes "Emplace T pos (Some t) v h = Done p (v', h')" and "\<not> size' v < Capacity v"
    and "RawMemory_ctor (if size' v = 0 then 1 else size' v * 2) h = (nd, h0)"
  shows "\<exists>h1 h2 h3 v1.
           construct_at (RawMemory_plus nd pos) t h0 = Some h1 \<and>
           (if \<not> is_copy_constructible T \<or> is_nothrow_move_constructible T
            then uninitialized_move_n T (GetAddress (data' v)) pos (GetAddress nd) h1
            else uninitialized_copy_n T (GetAddress (data' v)) pos (GetAddress nd) h1)
             = Done () h2 \<and>
           (if \<not> is_copy_constructible T \<or> is_nothrow_move_constructible T
            then uninitialized_move_n T (ptr_add (vec_begin v) pos) (size_t_sub (size' v) pos)
                   (ptr_add (RawMemory_plus nd pos) 1) h2
            else uninitialized_copy_n T (ptr_add (vec_begin v) pos) (size_t_sub (size' v) pos)
                   (ptr_add (RawMemory_plus nd pos) 1) h2)
             = Done () h3 \<and>
           adopt nd v h3 = Some (v1, h') \<and> v' = v1\<lparr>size' := size' v1 + 1\<rparr>"
proof (cases "\<not> is_copy_constructible T \<or> is_nothrow_move_constructible T")
  case True
  with assms show ?thesis
    unfolding Emplace_def on_outcome_def construct_from_def unwind_def
    by (auto split: option.splits outcome.splits prod.splits)
next
  case False
  with assms show ?thesis
    unfolding Emplace_def on_outcome_def construct_from_def unwind_def
    by (auto split: option.splits outcome.splits prod.splits)
qed


lemma nth_insert_at:
  assumes "pos \<le> length xs" and "j \<le> length xs"
  shows "(take pos xs @ t # drop pos xs) ! j =
           (if j < pos then xs ! j else if j = pos then t else xs ! (j - 1))"
proof -
  have "length (take pos xs) = pos" using assms(1) by simp
  then show ?thesis using assms
    by (auto simp: nth_append nth_Cons' )
qed

lemma Emplace_holds:
  assumes vp: "value_preserving T" and hv: "holds h v xs" and pos: "pos \<le> length xs"
    and run: "Emplace T pos (Some t) v h = Done p (v', h')"
  shows "holds h' v' (take pos xs @ t # drop pos xs)"
proof -
  let ?n = "length xs" and ?c = "capacity' (data' v)"
  let ?ss = "map Live xs @ replicate (?c - ?n) Raw"
  let ?ys = "take pos xs @ t # drop pos xs"
  from hv have n: "size' v = ?n" by (simp add: holds_def)
  have ly: "length ?ys = Suc ?n" using pos by simp
  note ny = nth_insert_at [OF pos, of _ t]
  show ?thesis
  proof (cases "size' v < Capacity v")
    case spare: True
    with hv obtain b where buf: "buffer' (data' v) = Ptr b 0" and lt: "?n < ?c"
      and blk: "bm h b = Some ?ss"
      by (auto simp: holds_def Capacity_def split: ptr.splits)
    have lss: "length ?ss = ?c" using lt by simp
    have ssl: "\<And>j. j < ?n \<Longrightarrow> ?ss ! j = Live (xs ! j)" by (simp add: nth_append)
    have ssr: "\<And>j. ?n \<le> j \<Longrightarrow> j < ?c \<Longrightarrow> ?ss ! j = Raw" by (simp add: nth_append)
    show ?thesis
    proof (cases "pos < size' v")
      case True
      with n obtain m where m: "?n = Suc m" by (cases xs) auto
      with True n have pm: "pos \<le> m" by simp
      from Emplace_shift_steps [OF run spare True buf n [unfolded m]] obtain h1 h2 where
        mc: "move_construct_at T (Ptr b (Suc m)) (Ptr b m) h = Done () h1"
        and mb: "move_backward_loop T (Ptr b pos) (Ptr b (Suc m)) (m - pos) h1 = Done () h2"
        and ma: "move_assign_from T (Ptr b pos) t h2 = Done () h'"
        and v': "v' = v\<lparr>size' := Suc (Suc m)\<rparr>" by blast
      from move_construct_at_Done [OF mc vp blk] obtain x r where
        x: "?ss ! m = Live x" and h1: "bm h1 = (bm h)(b \<mapsto> ?ss[m := Live r, Suc m := Live x])"
        by blast
      let ?ss1 = "?ss[m := Live r, Suc m := Live x]"
      from x m have xm: "x = xs ! m" by (simp add: nth_append)
      from h1 have b1: "bm h1 b = Some ?ss1" by simp
      from pm have "pos + (m - pos) = m" by simp
      with mb have "move_backward_loop T (Ptr b pos) (Ptr b (Suc (pos + (m - pos)))) (m - pos) h1
                      = Done () h2" by simp
      from move_backward_loop_shift_right [OF this vp b1] pm obtain ss2 where
        h2: "bm h2 = (bm h1)(b \<mapsto> ss2)" and l2: "length ss2 = ?c"
        and s2: "\<forall>j<?c. (pos < j \<and> j \<le> m \<longrightarrow> ss2 ! j = ?ss1 ! (j - 1)) \<and>
                         (j < pos \<or> m < j \<longrightarrow> ss2 ! j = ?ss1 ! j)"
        using lss by auto
      from h2 have "bm h2 b = Some ss2" by simp
      from move_assign_from_Done [OF ma vp this]
      have h': "bm h' = (bm h2)(b \<mapsto> ss2[pos := Live t])" by simp
      show ?thesis
      proof (rule holdsI [where b = b and ss = "ss2[pos := Live t]"])
        show "buffer' (data' v') = Ptr b 0" by (simp add: v' buf)
        show "size' v' = length ?ys" by (simp add: v' ly m)
        show "bm h' b = Some (ss2[pos := Live t])" by (simp add: h')
        show "length (ss2[pos := Live t]) = capacity' (data' v')" by (simp add: l2 v')
        show "length ?ys \<le> length (ss2[pos := Live t])" using lt by (simp add: l2 ly)
      next
        fix j assume "j < length ?ys"
        then have j: "j \<le> ?n" by (simp add: ly)
        with lt have jc: "j < ?c" by simp
        consider "j < pos" | "j = pos" | "pos < j" "j \<le> m" | "j = Suc m"
          using j m by linarith
        then show "ss2[pos := Live t] ! j = Live (?ys ! j)"
        proof cases
          case 1
          with s2 jc pm m ssl [of j] ny [OF j] show ?thesis by (simp add: l2)
        next
          case 2
          with jc ny [OF j] show ?thesis by (simp add: l2)
        next
          case 3
          with s2 jc m ssl [of "j - 1"] ny [OF j] show ?thesis by (simp add: l2)
        next
          case 4
          with s2 jc m pm lss xm ny [OF j] show ?thesis by (simp add: l2)
        qed
      next
        fix j assume "length ?ys \<le> j" "j < length (ss2[pos := Live t])"
        then have j: "Suc ?n \<le> j" "j < ?c" by (simp_all add: ly l2)
        with s2 m pm ssr [of j] show "ss2[pos := Live t] ! j = Raw" by simp
      qed
    next
      case False
      with pos n have pn: "pos = ?n" by simp
      from Emplace_end_steps [OF run spare False buf]
      have c: "construct_at (Ptr b ?n) t h = Some h'" and v': "v' = v\<lparr>size' := Suc ?n\<rparr>"
        by (simp_all add: pn n)
      from construct_at_Some [OF c blk] update_at_size [OF lt]
      have "bm h' b = Some (map Live (xs @ [t]) @ replicate (?c - Suc ?n) Raw)" by simp
      with v' buf lt pn show ?thesis by (simp add: holds_def)
    qed
  next
    case full: False
    define N where "N = (if size' v = 0 then 1 else size' v * 2)"
    have N0: "N \<noteq> 0" and Nn: "Suc ?n \<le> N" using n by (cases xs; simp add: N_def)+
    obtain nd h0 where ctor: "RawMemory_ctor N h = (nd, h0)" by (cases "RawMemory_ctor N h")
    from RawMemory_ctor_block [OF ctor N0] obtain a where
      nd: "nd = \<lparr>buffer' = Ptr a 0, capacity' = N\<rparr>" and fresh: "bm h a = None"
      and h0: "bm h0 = (bm h)(a \<mapsto> replicate N Raw)" by blast
    from Emplace_full_steps [OF run full ctor [unfolded N_def]] obtain h1 h2 h3 v1 where
      c0: "construct_at (RawMemory_plus nd pos) t h0 = Some h1"
      and r1: "(if \<not> is_copy_constructible T \<or> is_nothrow_move_constructible T
            then uninitialized_move_n T (GetAddress (data' v)) pos (GetAddress nd) h1
            else uninitialized_copy_n T (GetAddress (data' v)) pos (GetAddress nd) h1)
             = Done () h2"
      and r2: "(if \<not> is_copy_constructible T \<or> is_nothrow_move_constructible T
            then uninitialized_move_n T (ptr_add (vec_begin v) pos) (size_t_sub (size' v) pos)
                   (ptr_add (RawMemory_plus nd pos) 1) h2
            else uninitialized_copy_n T (ptr_add (vec_begin v) pos) (size_t_sub (size' v) pos)
                   (ptr_add (RawMemory_plus nd pos) 1) h2)
             = Done () h3"
      and ad: "adopt nd v h3 = Some (v1, h')" and v': "v' = v1\<lparr>size' := size' v1 + 1\<rparr>"
      by blast
    let ?ds1 = "(replicate N Raw)[pos := Live t]"
    from c0 have c: "construct_at (Ptr a pos) t h0 = Some h1"
      by (simp add: nd RawMemory_plus_def)
    from h0 have "bm h0 a = Some (replicate N Raw)" by simp
    from construct_at_Some [OF c this] have h1: "bm h1 = (bm h0)(a \<mapsto> ?ds1)" by simp
    have sub: "size_t_sub (size' v) pos = ?n - pos" using pos n by (simp add: size_t_sub_def)
    have nb: "\<And>i. buffer' (data' v) \<noteq> Ptr a i"
      using hv fresh by (auto simp: holds_def split: ptr.splits)
    from adopt_frame [OF ad nb] have h': "bm h' a = bm h3 a" and v1: "v1 = v\<lparr>data' := nd\<rparr>"
      by auto
    have "\<exists>ds'. bm h3 a = Some ds' \<and> length ds' = N \<and>
            (\<forall>j<N. ds' ! j = (if j < pos then Live (xs ! j) else if j = pos then Live t
                               else if j \<le> ?n then Live (xs ! (j - 1)) else Raw))"
    proof (cases "buffer' (data' v)")
      case Null
      with hv pos have x0: "xs = []" "pos = 0" by (auto simp: holds_def)
      from relocate_Null' [OF r1 [unfolded GetAddress_def Null]] have "h2 = h1" by simp
      moreover from relocate_Null' [OF r2 [unfolded vec_begin_def GetAddress_def Null ptr_add.simps]]
      have "h3 = h2" by simp
      ultimately show ?thesis using h1 x0 by (auto simp: nth_list_update)
    next
      case (Ptr b i)
      with hv have i: "i = 0" and blk: "bm h b = Some ?ss" and le: "?n \<le> ?c"
        by (auto simp: holds_def)
      have lss: "length ?ss = ?c" using le by simp
      from blk fresh have ab: "b \<noteq> a" by auto
      with h0 h1 blk have s: "bm h1 b = Some ?ss" and d: "bm h1 a = Some ?ds1" by auto
      have ga: "GetAddress (data' v) = Ptr b 0" "GetAddress nd = Ptr a 0"
        "ptr_add (vec_begin v) pos = Ptr b pos"
        "ptr_add (RawMemory_plus nd pos) 1 = Ptr a (Suc pos)"
        by (simp_all add: vec_begin_def GetAddress_def Ptr i nd RawMemory_plus_def)
      note r1' = r1 [unfolded ga]
      note r2' = r2 [unfolded ga sub]
      from relocate_Done' [OF r1' vp ab s d] obtain ss' ds2 where
        h2: "bm h2 = (bm h1)(b \<mapsto> ss', a \<mapsto> ds2)"
        and ls': "length ss' = ?c" and ld2: "length ds2 = N"
        and s': "\<forall>j<?c. \<not> j < pos \<longrightarrow> ss' ! j = ?ss ! j"
        and d2: "\<forall>j<N. ds2 ! j = (if j < pos then ?ss ! j else ?ds1 ! j)"
        using lss by auto
      from h2 ab have s2: "bm h2 b = Some ss'" and dd2: "bm h2 a = Some ds2" by auto
      from relocate_Done' [OF r2' vp ab s2 dd2] obtain ss3 ds3 where
        h3: "bm h3 = (bm h2)(b \<mapsto> ss3, a \<mapsto> ds3)" and ld3: "length ds3 = N"
        and d3: "\<forall>j<N. ds3 ! j = (if Suc pos \<le> j \<and> j < Suc pos + (?n - pos)
                                    then ss' ! (pos + (j - Suc pos)) else ds2 ! j)"
        using ld2 by auto
      have "\<forall>j<N. ds3 ! j = (if j < pos then Live (xs ! j) else if j = pos then Live t
                               else if j \<le> ?n then Live (xs ! (j - 1)) else Raw)"
      proof (intro allI impI)
        fix j assume jN: "j < N"
        consider "j < pos" | "j = pos" | "pos < j" "j \<le> ?n" | "?n < j"
          using pos by linarith
        then show "ds3 ! j = (if j < pos then Live (xs ! j) else if j = pos then Live t
                               else if j \<le> ?n then Live (xs ! (j - 1)) else Raw)"
        proof cases
          case 1
          with d3 d2 jN pos show ?thesis by (simp add: nth_append)
        next
          case 2
          with d3 d2 jN show ?thesis by simp
        next
          case 3
          then have "pos + (j - Suc pos) = j - 1" "j - 1 < ?n" "\<not> j - 1 < pos" by auto
          with 3 d3 s' jN le show ?thesis by (simp add: nth_append)
        next
          case 4
          with d3 d2 jN pos show ?thesis by simp
        qed
      qed
      with h3 ld3 show ?thesis by auto
    qed
    then obtain ds' where ds': "bm h3 a = Some ds'" "length ds' = N"
      "\<forall>j<N. ds' ! j = (if j < pos then Live (xs ! j) else if j = pos then Live t
                               else if j \<le> ?n then Live (xs ! (j - 1)) else Raw)" by blast
    show ?thesis
    proof (rule holdsI [where b = a and ss = ds'])
      show "buffer' (data' v') = Ptr a 0" by (simp add: v' v1 nd)
      show "size' v' = length ?ys" by (simp add: v' v1 n ly)
      show "bm h' a = Some ds'" by (simp add: h' ds')
      show "length ds' = capacity' (data' v')" by (simp add: v' v1 nd ds')
      show "length ?ys \<le> length ds'" using Nn by (simp add: ds' ly)
    next
      fix j assume "j < length ?ys"
      then have j: "j \<le> ?n" by (simp add: ly)
      with Nn have "j < N" by simp
      with ds' j ny [OF j] show "ds' ! j = Live (?ys ! j)" by simp
    next
      fix j assume "length ?ys \<le> j" "j < length ds'"
      then have "Suc ?n \<le> j" "j < N" by (simp_all add: ly ds')
      with ds' pos show "ds' ! j = Raw" by simp
    qed
  qed
qed

section \<open>Sequences of appends\<close>

lemma holds_size: "holds h v xs \<Longrightarrow> size' v = length xs"
  by (simp add: holds_def)

lemma holds_capacity: "holds h v xs \<Longrightarrow> length xs \<le> Capacity v"
  by (auto simp: holds_def Capacity_def split: ptr.splits)

lemma push_back_holds:
  assumes vp: "value_preserving T" and hv: "holds h v xs"
    and run: "push_back T c v h = Done u (v', h')"
  shows "holds h' v' (xs @ [pushed c]) \<and> Capacity v \<le> Capacity v'"
proof (cases c)
  case (ByCopy x)
  with run have r: "append_body T (copy_ctor T x) v h = Done u (v', h')"
    by (simp add: PushBack_def)
  then obtain y where y: "copy_ctor T x = Some y"
    by (cases "copy_ctor T x") (auto simp: append_body_ctor_throws)
  from vp_copy_ctor [OF vp y] have "y = x" .
  with append_body_holds [OF vp hv r [unfolded y]] ByCopy show ?thesis by simp
next
  case (ByMove x)
  with run have r: "append_body T (map_option fst (move_ctor T x)) v h = Done u (v', h')"
    by (simp add: PushBack_move_def)
  then obtain y z where y: "move_ctor T x = Some (y, z)"
    by (cases "move_ctor T x") (auto simp: append_body_ctor_throws)
  from vp_move_ctor [OF vp y] have "y = x" .
  with append_body_holds [OF vp hv, of x u v' h'] r y ByMove show ?thesis by simp
qed

lemma push_back_all_holds:
  assumes "value_preserving T" and "holds h v xs"
    and "push_back_all T cs v h = Done u (v', h')"
  shows "holds h' v' (xs @ map pushed cs) \<and> Capacity v \<le> Capacity v'"
  using assms(2,3)
proof (induction cs arbitrary: v h xs)
  case Nil
  then show ?case by simp
next
  case (Cons c cs)
  from Cons.prems(2) obtain v1 h1 where
    1: "push_back T c v h = Done () (v1, h1)" and 2: "push_back_all T cs v1 h1 = Done u (v', h')"
    by (auto split: outcome.splits)
  from push_back_holds [OF assms(1) Cons.prems(1) 1]
  have "holds h1 v1 (xs @ [pushed c])" and "Capacity v \<le> Capacity v1" by simp_all
  with Cons.IH [OF _ 2, of "xs @ [pushed c]"] show ?case by simp
qed

lemma erase_insert_list:
  "pos \<le> length xs \<Longrightarrow>
     take pos (take pos xs @ x # drop pos xs) @ drop (Suc pos) (take pos xs @ x # drop pos xs) = xs"
  by (simp add: min_absorb2)

section \<open>Element types that do not throw: every step returns\<close>

lemma not_Raw: "s \<noteq> Raw \<longleftrightarrow> (\<exists>y. s = Live y)"
  by (cases s) auto

lemma nt_copy_ctor: "nothrow T \<Longrightarrow> \<exists>y. copy_ctor T x = Some y"
  unfolding nothrow_def by (cases "copy_ctor T x") blast+

lemma nt_move_ctor: "nothrow T \<Longrightarrow> \<exists>y r. move_ctor T x = Some (y, r)"
  unfolding nothrow_def by (cases "move_ctor T x") (blast, fastforce)

lemma nt_move_asg: "nothrow T \<Longrightarrow> \<exists>y r. move_asg T t x = Some (y, r)"
  unfolding nothrow_def by (cases "move_asg T t x") (blast, fastforce)

lemma construct_at_ok:
  "bm h b = Some ss \<Longrightarrow> i < length ss \<Longrightarrow>
     \<exists>h'. construct_at (Ptr b i) x h = Some h' \<and> bm h' = (bm h)(b \<mapsto> ss[i := Live x])"
  by (cases "ss ! i") (auto simp: construct_at_def map_of_map_entry)

lemma destroy_at_ok:
  "bm h b = Some ss \<Longrightarrow> i < length ss \<Longrightarrow> ss ! i \<noteq> Raw \<Longrightarrow>
     \<exists>h'. destroy_at (Ptr b i) h = Some h' \<and> bm h' = (bm h)(b \<mapsto> ss[i := Raw])"
  by (cases "ss ! i") (auto simp: destroy_at_def map_of_map_entry)

lemma read_obj_ok:
  "bm h b = Some ss \<Longrightarrow> i < length ss \<Longrightarrow> ss ! i \<noteq> Raw \<Longrightarrow> \<exists>x. read_obj h (Ptr b i) = Some x"
  by (cases "ss ! i") (auto simp: read_obj_def)

lemma destroy_loop_ok:
  assumes "bm h b = Some ss" and "p0 + i + k \<le> length ss"
    and "\<forall>j. p0 + i \<le> j \<and> j < p0 + i + k \<longrightarrow> ss ! j \<noteq> Raw"
  shows "\<exists>h' ss'. destroy_loop (Ptr b p0) i k h = Some h' \<and> bm h' = (bm h)(b \<mapsto> ss') \<and>
           length ss' = length ss"
  using assms
proof (induction k arbitrary: i h ss)
  case 0
  then show ?case by (rule_tac x = h in exI, rule_tac x = ss in exI) (auto simp: fun_eq_iff)
next
  case (Suc k)
  from Suc.prems have "p0 + i < length ss" "ss ! (p0 + i) \<noteq> Raw" by auto
  from destroy_at_ok [OF Suc.prems(1) this] obtain h1 where
    d: "destroy_at (Ptr b (p0 + i)) h = Some h1" and h1: "bm h1 = (bm h)(b \<mapsto> ss[p0 + i := Raw])"
    by blast
  let ?ss1 = "ss[p0 + i := Raw]"
  from h1 have b1: "bm h1 b = Some ?ss1" by simp
  have "p0 + Suc i + k \<le> length ?ss1" using Suc.prems(2) by simp
  moreover have "\<forall>j. p0 + Suc i \<le> j \<and> j < p0 + Suc i + k \<longrightarrow> ?ss1 ! j \<noteq> Raw"
    using Suc.prems(3) by (auto simp: nth_list_update)
  ultimately obtain h' ss' where
    "destroy_loop (Ptr b p0) (Suc i) k h1 = Some h'" "bm h' = (bm h1)(b \<mapsto> ss')"
    "length ss' = length ?ss1"
    using Suc.IH [OF b1] by blast
  then have "length ss' = length ss" by simp
  moreover have "bm h' = (bm h)(b \<mapsto> ss')"
    unfolding \<open>bm h' = (bm h1)(b \<mapsto> ss')\<close> h1 by simp
  moreover have "destroy_loop (Ptr b p0) i (Suc k) h = Some h'"
    using d \<open>destroy_loop (Ptr b p0) (Suc i) k h1 = Some h'\<close> by simp
  ultimately show ?case by blast
qed

lemma Deallocate_ok: "bm h b = Some ss \<Longrightarrow> \<exists>h'. Deallocate (Ptr b 0) h = Some h'"
  by simp

lemma uninitialized_move_loop_ok:
  assumes "nothrow T" and "bs \<noteq> bd" and "bm h bs = Some ss" and "bm h bd = Some ds"
    and "s0 + i + k \<le> length ss" and "d0 + i + k \<le> length ds"
    and "\<forall>j. s0 + i \<le> j \<and> j < s0 + i + k \<longrightarrow> ss ! j \<noteq> Raw"
  shows "\<exists>h' ss' ds'. uninitialized_move_loop T (Ptr bs s0) (Ptr bd d0) i k h = Done () h' \<and>
           bm h' = (bm h)(bs \<mapsto> ss', bd \<mapsto> ds') \<and> length ss' = length ss \<and>
           length ds' = length ds \<and> (\<forall>j<length ss. ss ! j \<noteq> Raw \<longrightarrow> ss' ! j \<noteq> Raw)"
  using assms(3-7)
proof (induction k arbitrary: i h ss ds)
  case 0
  then show ?case by (rule_tac x = h in exI, rule_tac x = ss in exI, rule_tac x = ds in exI) (auto simp: fun_eq_iff)
next
  case (Suc k)
  from Suc.prems have si: "s0 + i < length ss" "ss ! (s0 + i) \<noteq> Raw" and di: "d0 + i < length ds"
    by auto
  from read_obj_ok [OF Suc.prems(1) si] obtain x where
    rd: "read_obj h (Ptr bs (s0 + i)) = Some x" by blast
  from nt_move_ctor [OF assms(1)] obtain y r where mv: "move_ctor T x = Some (y, r)"
    by blast
  let ?h1 = "store (Ptr bs (s0 + i)) (Live r) h"
  let ?ss1 = "ss[s0 + i := Live r]"
  let ?ds1 = "ds[d0 + i := Live y]"
  have h1: "bm ?h1 = (bm h)(bs \<mapsto> ?ss1)" by (rule store_block [OF Suc.prems(1)])
  with Suc.prems(2) assms(2) have "bm ?h1 bd = Some ds" by simp
  from construct_at_ok [OF this di] obtain h2 where
    cs: "construct_at (Ptr bd (d0 + i)) y ?h1 = Some h2" and h2: "bm h2 = (bm ?h1)(bd \<mapsto> ?ds1)"
    by blast
  from h1 h2 assms(2) have b2: "bm h2 bs = Some ?ss1" "bm h2 bd = Some ?ds1" by auto
  have "s0 + Suc i + k \<le> length ?ss1" "d0 + Suc i + k \<le> length ?ds1"
    using Suc.prems(3,4) by simp_all
  moreover have "\<forall>j. s0 + Suc i \<le> j \<and> j < s0 + Suc i + k \<longrightarrow> ?ss1 ! j \<noteq> Raw"
    using Suc.prems(5) by (auto simp: nth_list_update)
  ultimately obtain h' ss' ds' where
    l: "uninitialized_move_loop T (Ptr bs s0) (Ptr bd d0) (Suc i) k h2 = Done () h'"
    and 1: "bm h' = (bm h2)(bs \<mapsto> ss', bd \<mapsto> ds')"
    and 2: "length ss' = length ?ss1" "length ds' = length ?ds1"
    and 3: "\<forall>j<length ?ss1. ?ss1 ! j \<noteq> Raw \<longrightarrow> ss' ! j \<noteq> Raw"
    using Suc.IH [OF b2] by blast
  have a: "bm h' = (bm h)(bs \<mapsto> ss', bd \<mapsto> ds')"
    unfolding 1 h2 h1 by (rule ext) simp
  have c: "\<forall>j<length ss. ss ! j \<noteq> Raw \<longrightarrow> ss' ! j \<noteq> Raw"
  proof (intro allI impI)
    fix j assume j: "j < length ss" "ss ! j \<noteq> Raw"
    then have "?ss1 ! j \<noteq> Raw" by (cases "j = s0 + i") simp_all
    with 3 j show "ss' ! j \<noteq> Raw" by simp
  qed
  from rd mv cs l have "uninitialized_move_loop T (Ptr bs s0) (Ptr bd d0) i (Suc k) h = Done () h'"
    by simp
  with a c 2 [simplified] show ?case by blast
qed

lemma uninitialized_copy_loop_ok:
  assumes "nothrow T" and "bs \<noteq> bd" and "bm h bs = Some ss" and "bm h bd = Some ds"
    and "s0 + i + k \<le> length ss" and "d0 + i + k \<le> length ds"
    and "\<forall>j. s0 + i \<le> j \<and> j < s0 + i + k \<longrightarrow> ss ! j \<noteq> Raw"
  shows "\<exists>h' ss' ds'. uninitialized_copy_loop T (Ptr bs s0) (Ptr bd d0) i k h = Done () h' \<and>
           bm h' = (bm h)(bs \<mapsto> ss', bd \<mapsto> ds') \<and> length ss' = length ss \<and>
           length ds' = length ds \<and> (\<forall>j<length ss. ss ! j \<noteq> Raw \<longrightarrow> ss' ! j \<noteq> Raw)"
  using assms(3-7)
proof (induction k arbitrary: i h ds)
  case 0
  then show ?case
    by (rule_tac x = h in exI, rule_tac x = ss in exI, rule_tac x = ds in exI) (auto simp: fun_eq_iff)
next
  case (Suc k)
  from Suc.prems have si: "s0 + i < length ss" "ss ! (s0 + i) \<noteq> Raw" and di: "d0 + i < length ds"
    by auto
  from read_obj_ok [OF Suc.prems(1) si] obtain x where
    rd: "read_obj h (Ptr bs (s0 + i)) = Some x" by blast
  from nt_copy_ctor [OF assms(1)] obtain y where cp: "copy_ctor T x = Some y"
    by blast
  let ?ds1 = "ds[d0 + i := Live y]"
  from construct_at_ok [OF Suc.prems(2) di] obtain h2 where
    cs: "construct_at (Ptr bd (d0 + i)) y h = Some h2" and h2: "bm h2 = (bm h)(bd \<mapsto> ?ds1)"
    by blast
  from h2 assms(2) Suc.prems(1) have b2: "bm h2 bs = Some ss" "bm h2 bd = Some ?ds1" by auto
  have "s0 + Suc i + k \<le> length ss" "d0 + Suc i + k \<le> length ?ds1"
    using Suc.prems(3,4) by simp_all
  moreover have "\<forall>j. s0 + Suc i \<le> j \<and> j < s0 + Suc i + k \<longrightarrow> ss ! j \<noteq> Raw"
    using Suc.prems(5) by auto
  ultimately obtain h' ss' ds' where
    l: "uninitialized_copy_loop T (Ptr bs s0) (Ptr bd d0) (Suc i) k h2 = Done () h'"
    and 1: "bm h' = (bm h2)(bs \<mapsto> ss', bd \<mapsto> ds')"
    and 2: "length ss' = length ss" "length ds' = length ?ds1"
    and 3: "\<forall>j<length ss. ss ! j \<noteq> Raw \<longrightarrow> ss' ! j \<noteq> Raw"
    using Suc.IH [OF b2] by blast
  have a: "bm h' = (bm h)(bs \<mapsto> ss', bd \<mapsto> ds')"
    unfolding 1 h2 by (rule ext) simp
  from rd cp cs l have "uninitialized_copy_loop T (Ptr bs s0) (Ptr bd d0) i (Suc k) h = Done () h'"
    by simp
  with a 3 2 [simplified] show ?case by blast
qed

lemma relocate_ok:
  assumes "nothrow T" and "bs \<noteq> bd" and "bm h bs = Some ss" and "bm h bd = Some ds"
    and "s0 + k \<le> length ss" and "d0 + k \<le> length ds"
    and "\<forall>j. s0 \<le> j \<and> j < s0 + k \<longrightarrow> ss ! j \<noteq> Raw"
  shows "\<exists>h' ss' ds'.
           (if c then uninitialized_copy_n T (Ptr bs s0) k (Ptr bd d0) h
            else uninitialized_move_n T (Ptr bs s0) k (Ptr bd d0) h) = Done () h' \<and>
           bm h' = (bm h)(bs \<mapsto> ss', bd \<mapsto> ds') \<and> length ss' = length ss \<and>
           length ds' = length ds \<and> (\<forall>j<length ss. ss ! j \<noteq> Raw \<longrightarrow> ss' ! j \<noteq> Raw)"
proof (cases c)
  case True
  with uninitialized_copy_loop_ok [OF assms(1-4), of s0 0 k d0] assms(5-7) show ?thesis
    by (simp add: uninitialized_copy_n_def)
next
  case False
  with uninitialized_move_loop_ok [OF assms(1-4), of s0 0 k d0] assms(5-7) show ?thesis
    by (simp add: uninitialized_move_n_def)
qed

lemma relocate_ok':
  assumes "nothrow T" and "bs \<noteq> bd" and "bm h bs = Some ss" and "bm h bd = Some ds"
    and "s0 + k \<le> length ss" and "d0 + k \<le> length ds"
    and "\<forall>j. s0 \<le> j \<and> j < s0 + k \<longrightarrow> ss ! j \<noteq> Raw"
  shows "\<exists>h' ss' ds'.
           (if c then uninitialized_move_n T (Ptr bs s0) k (Ptr bd d0) h
            else uninitialized_copy_n T (Ptr bs s0) k (Ptr bd d0) h) = Done () h' \<and>
           bm h' = (bm h)(bs \<mapsto> ss', bd \<mapsto> ds') \<and> length ss' = length ss \<and>
           length ds' = length ds \<and> (\<forall>j<length ss. ss ! j \<noteq> Raw \<longrightarrow> ss' ! j \<noteq> Raw)"
  using relocate_ok [OF assms, of "\<not> c"] by (cases c) simp_all

lemma adopt_ok:
  assumes "buffer' (data' v) = Ptr b 0" and "bm h b = Some ss" and "size' v \<le> length ss"
    and "\<forall>j<size' v. ss ! j \<noteq> Raw"
  shows "\<exists>h'. adopt nd v h = Some (v\<lparr>data' := nd\<rparr>, h')"
proof -
  from destroy_loop_ok [OF assms(2), of 0 0 "size' v"] assms(3,4) obtain h1 ss1 where
    d: "destroy_loop (Ptr b 0) 0 (size' v) h = Some h1" and "bm h1 = (bm h)(b \<mapsto> ss1)"
    by auto
  then have "bm h1 b = Some ss1" by simp
  with d assms(1) show ?thesis
    by (simp add: adopt_def GetAddress_def destroy_n_def RawMemory_Swap_def RawMemory_dtor_def)
qed

lemma adopt_ok_Null:
  assumes "buffer' (data' v) = Null" and "size' v = 0"
  shows "adopt nd v h = Some (v\<lparr>data' := nd\<rparr>, h)"
  using assms
  by (simp add: adopt_def GetAddress_def destroy_n_def RawMemory_Swap_def RawMemory_dtor_def)

lemma move_assign_at_ok:
  assumes "nothrow T" and "bm h b = Some ss" and "d < length ss" and "s < length ss"
    and "ss ! d \<noteq> Raw" and "ss ! s \<noteq> Raw"
  shows "\<exists>h' t' r. move_assign_at T (Ptr b d) (Ptr b s) h = Done () h' \<and>
           bm h' = (bm h)(b \<mapsto> ss[s := Live r, d := Live t'])"
proof -
  from read_obj_ok [OF assms(2,3,5)] obtain t where rd: "read_obj h (Ptr b d) = Some t" by blast
  from read_obj_ok [OF assms(2,4,6)] obtain x where rs: "read_obj h (Ptr b s) = Some x" by blast
  from nt_move_asg [OF assms(1)] obtain t' r where mv: "move_asg T t x = Some (t', r)" by blast
  let ?h' = "store (Ptr b d) (Live t') (store (Ptr b s) (Live r) h)"
  have "bm (store (Ptr b s) (Live r) h) = (bm h)(b \<mapsto> ss[s := Live r])"
    by (rule store_block [OF assms(2)])
  then have "bm ?h' = ((bm h)(b \<mapsto> ss[s := Live r]))(b \<mapsto> ss[s := Live r, d := Live t'])"
    by (subst store_block) auto
  then have "bm ?h' = (bm h)(b \<mapsto> ss[s := Live r, d := Live t'])" by simp
  moreover from rd rs mv have "move_assign_at T (Ptr b d) (Ptr b s) h = Done () ?h'"
    by (simp add: move_assign_at_def)
  ultimately show ?thesis by blast
qed

lemma live_update2:
  assumes "j < length ss" and "ss ! j \<noteq> Raw"
  shows "ss[s := Live r, d := Live t] ! j \<noteq> Raw"
  using assms by (cases "j = d"; cases "j = s") simp_all

lemma move_loop_ok:
  assumes "nothrow T" and "bm h b = Some ss" and "f + i + k < length ss"
    and "\<forall>j. f + i \<le> j \<and> j \<le> f + i + k \<longrightarrow> ss ! j \<noteq> Raw"
  shows "\<exists>h' ss'. move_loop T (Ptr b (Suc f)) (Ptr b f) i k h = Done () h' \<and>
           bm h' = (bm h)(b \<mapsto> ss') \<and> length ss' = length ss \<and>
           (\<forall>j<length ss. ss ! j \<noteq> Raw \<longrightarrow> ss' ! j \<noteq> Raw)"
  using assms(2-4)
proof (induction k arbitrary: i h ss)
  case 0
  then have "bm h = (bm h)(b \<mapsto> ss)" by (auto simp: fun_eq_iff)
  moreover have "move_loop T (Ptr b (Suc f)) (Ptr b f) i 0 h = Done () h" by simp
  ultimately show ?case by blast
next
  case (Suc k)
  from Suc.prems have b: "f + i < length ss" "Suc f + i < length ss"
    and l: "ss ! (f + i) \<noteq> Raw" "ss ! (Suc f + i) \<noteq> Raw" by auto
  from move_assign_at_ok [OF assms(1) Suc.prems(1) b l] obtain h1 t' r where
    st: "move_assign_at T (Ptr b (f + i)) (Ptr b (Suc f + i)) h = Done () h1"
    and h1: "bm h1 = (bm h)(b \<mapsto> ss[Suc f + i := Live r, f + i := Live t'])" by blast
  let ?ss1 = "ss[Suc f + i := Live r, f + i := Live t']"
  from h1 have b1: "bm h1 b = Some ?ss1" by simp
  have "f + Suc i + k < length ?ss1" using Suc.prems(2) by simp
  moreover have "\<forall>j. f + Suc i \<le> j \<and> j \<le> f + Suc i + k \<longrightarrow> ?ss1 ! j \<noteq> Raw"
  proof (intro allI impI)
    fix j assume "f + Suc i \<le> j \<and> j \<le> f + Suc i + k"
    with Suc.prems(2,3) have "j < length ss" "ss ! j \<noteq> Raw" by auto
    then show "?ss1 ! j \<noteq> Raw" by (rule live_update2)
  qed
  ultimately obtain h' ss' where
    lp: "move_loop T (Ptr b (Suc f)) (Ptr b f) (Suc i) k h1 = Done () h'"
    and 1: "bm h' = (bm h1)(b \<mapsto> ss')" and 2: "length ss' = length ?ss1"
    and 3: "\<forall>j<length ?ss1. ?ss1 ! j \<noteq> Raw \<longrightarrow> ss' ! j \<noteq> Raw"
    using Suc.IH [OF b1] by blast
  have a: "bm h' = (bm h)(b \<mapsto> ss')" unfolding 1 h1 by simp
  have c: "\<forall>j<length ss. ss ! j \<noteq> Raw \<longrightarrow> ss' ! j \<noteq> Raw"
  proof (intro allI impI)
    fix j assume j: "j < length ss" "ss ! j \<noteq> Raw"
    then have "?ss1 ! j \<noteq> Raw" by (rule live_update2)
    with 3 j show "ss' ! j \<noteq> Raw" by simp
  qed
  from st lp have "move_loop T (Ptr b (Suc f)) (Ptr b f) i (Suc k) h = Done () h'" by simp
  with a c 2 [simplified] show ?case by blast
qed

lemma move_backward_loop_ok:
  assumes "nothrow T" and "bm h b = Some ss" and "k = 0 \<or> Suc (f + k) < length ss"
    and "\<forall>j. f \<le> j \<and> j \<le> Suc (f + k) \<and> k \<noteq> 0 \<longrightarrow> ss ! j \<noteq> Raw"
  shows "\<exists>h' ss'. move_backward_loop T (Ptr b f) (Ptr b (Suc (f + k))) k h = Done () h' \<and>
           bm h' = (bm h)(b \<mapsto> ss') \<and> length ss' = length ss \<and>
           (\<forall>j<length ss. ss ! j \<noteq> Raw \<longrightarrow> ss' ! j \<noteq> Raw)"
  using assms(2-4)
proof (induction k arbitrary: h ss)
  case 0
  then have "bm h = (bm h)(b \<mapsto> ss)" by (auto simp: fun_eq_iff)
  moreover have "move_backward_loop T (Ptr b f) (Ptr b (Suc (f + 0))) 0 h = Done () h" by simp
  ultimately show ?case by blast
next
  case (Suc k)
  from Suc.prems have b: "Suc (f + k) < length ss" "f + k < length ss"
    and l: "ss ! Suc (f + k) \<noteq> Raw" "ss ! (f + k) \<noteq> Raw" by auto
  from move_assign_at_ok [OF assms(1) Suc.prems(1) b l] obtain h1 t' r where
    st: "move_assign_at T (Ptr b (Suc (f + k))) (Ptr b (f + k)) h = Done () h1"
    and h1: "bm h1 = (bm h)(b \<mapsto> ss[f + k := Live r, Suc (f + k) := Live t'])" by blast
  let ?ss1 = "ss[f + k := Live r, Suc (f + k) := Live t']"
  from h1 have b1: "bm h1 b = Some ?ss1" by simp
  have "k = 0 \<or> Suc (f + k) < length ?ss1" using b by simp
  moreover have "\<forall>j. f \<le> j \<and> j \<le> Suc (f + k) \<and> k \<noteq> 0 \<longrightarrow> ?ss1 ! j \<noteq> Raw"
  proof (intro allI impI)
    fix j assume "f \<le> j \<and> j \<le> Suc (f + k) \<and> k \<noteq> 0"
    with Suc.prems(3) b have "j < length ss" "ss ! j \<noteq> Raw" by auto
    then show "?ss1 ! j \<noteq> Raw" by (rule live_update2)
  qed
  ultimately obtain h' ss' where
    lp: "move_backward_loop T (Ptr b f) (Ptr b (Suc (f + k))) k h1 = Done () h'"
    and 1: "bm h' = (bm h1)(b \<mapsto> ss')" and 2: "length ss' = length ?ss1"
    and 3: "\<forall>j<length ?ss1. ?ss1 ! j \<noteq> Raw \<longrightarrow> ss' ! j \<noteq> Raw"
    using Suc.IH [OF b1] by blast
  have a: "bm h' = (bm h)(b \<mapsto> ss')" unfolding 1 h1 by simp
  have c: "\<forall>j<length ss. ss ! j \<noteq> Raw \<longrightarrow> ss' ! j \<noteq> Raw"
  proof (intro allI impI)
    fix j assume j: "j < length ss" "ss ! j \<noteq> Raw"
    then have "?ss1 ! j \<noteq> Raw" by (rule live_update2)
    with 3 j show "ss' ! j \<noteq> Raw" by simp
  qed
  from st lp have "move_backward_loop T (Ptr b f) (Ptr b (Suc (f + Suc k))) (Suc k) h = Done () h'"
    by simp
  with a c 2 [simplified] show ?case by blast
qed

lemma move_construct_at_ok:
  assumes "nothrow T" and "bm h b = Some ss" and "d < length ss" and "s < length ss"
    and "ss ! s \<noteq> Raw"
  shows "\<exists>h' y r. move_construct_at T (Ptr b d) (Ptr b s) h = Done () h' \<and>
           bm h' = (bm h)(b \<mapsto> ss[s := Live r, d := Live y])"
proof -
  from read_obj_ok [OF assms(2,4,5)] obtain x where rs: "read_obj h (Ptr b s) = Some x" by blast
  from nt_move_ctor [OF assms(1)] obtain y r where mv: "move_ctor T x = Some (y, r)" by blast
  have 1: "bm (store (Ptr b s) (Live r) h) = (bm h)(b \<mapsto> ss[s := Live r])"
    by (rule store_block [OF assms(2)])
  then have "bm (store (Ptr b s) (Live r) h) b = Some (ss[s := Live r])" by simp
  from construct_at_ok [OF this, of d y] assms(3) obtain h' where
    c: "construct_at (Ptr b d) y (store (Ptr b s) (Live r) h) = Some h'"
    and "bm h' = (bm (store (Ptr b s) (Live r) h))(b \<mapsto> ss[s := Live r, d := Live y])"
    by auto
  with 1 have "bm h' = (bm h)(b \<mapsto> ss[s := Live r, d := Live y])" by simp
  moreover from rs mv c have "move_construct_at T (Ptr b d) (Ptr b s) h = Done () h'"
    by (simp add: move_construct_at_def)
  ultimately show ?thesis by blast
qed

lemma move_assign_from_ok:
  assumes "nothrow T" and "bm h b = Some ss" and "d < length ss" and "ss ! d \<noteq> Raw"
  shows "\<exists>h'. move_assign_from T (Ptr b d) x h = Done () h'"
proof -
  from read_obj_ok [OF assms(2,3,4)] obtain t where rd: "read_obj h (Ptr b d) = Some t" by blast
  from nt_move_asg [OF assms(1)] obtain t' r where "move_asg T t x = Some (t', r)" by blast
  with rd show ?thesis by (simp add: move_assign_from_def)
qed

lemma holds_block_live:
  assumes "j < length xs"
  shows "(map Live xs @ replicate n Raw) ! j \<noteq> Raw"
  using assms by (simp add: nth_append)

lemma uninitialized_n_zero [simp]:
  "uninitialized_copy_n T p 0 q h = Done () h" "uninitialized_move_n T p 0 q h = Done () h"
  by (simp_all add: uninitialized_copy_n_def uninitialized_move_n_def)

lemma append_body_full_eq:
  assumes "size' v = Capacity v"
    and "RawMemory_ctor (if size' v = 0 then 1 else size' v * 2) h = (nd, h0)"
    and "construct_at (RawMemory_plus nd (size' v)) x h0 = Some h1"
    and "(if is_copy_constructible T \<and> \<not> is_nothrow_move_constructible T
          then uninitialized_copy_n T (GetAddress (data' v)) (size' v) (GetAddress nd) h1
          else uninitialized_move_n T (GetAddress (data' v)) (size' v) (GetAddress nd) h1)
         = Done () h2"
    and "adopt nd v h2 = Some (v1, h')"
  shows "append_body T (Some x) v h = Done () (v1\<lparr>size' := size' v1 + 1\<rparr>, h')"
proof (cases "is_copy_constructible T \<and> \<not> is_nothrow_move_constructible T")
  case True
  with assms show ?thesis
    unfolding append_body_def on_outcome_def construct_from_def by simp
next
  case False
  with assms show ?thesis
    unfolding append_body_def on_outcome_def construct_from_def by auto
qed

lemma append_body_ok:
  assumes nt: "nothrow T" and hv: "holds h v xs"
  shows "\<exists>v' h'. append_body T (Some x) v h = Done () (v', h')"
proof -
  let ?n = "length xs" and ?c = "capacity' (data' v)"
  let ?ss = "map Live xs @ replicate (?c - ?n) Raw"
  from hv have n: "size' v = ?n" by (simp add: holds_def)
  show ?thesis
  proof (cases "size' v \<noteq> Capacity v")
    case True
    with hv obtain b where buf: "buffer' (data' v) = Ptr b 0" and lt: "?n < ?c"
      and blk: "bm h b = Some ?ss"
      by (auto simp: holds_def Capacity_def split: ptr.splits)
    from construct_at_ok [OF blk, of ?n x] lt obtain h' where
      "construct_at (Ptr b ?n) x h = Some h'" by auto
    with True buf n show ?thesis
      by (simp add: append_body_def on_outcome_def construct_from_def RawMemory_plus_def)
  next
    case False
    define N where "N = (if size' v = 0 then 1 else size' v * 2)"
    have N0: "N \<noteq> 0" and Nn: "Suc ?n \<le> N" using n by (cases xs; simp add: N_def)+
    obtain nd h0 where ctor: "RawMemory_ctor N h = (nd, h0)" by (cases "RawMemory_ctor N h")
    from RawMemory_ctor_block [OF ctor N0] obtain a where
      nd: "nd = \<lparr>buffer' = Ptr a 0, capacity' = N\<rparr>" and fresh: "bm h a = None"
      and h0: "bm h0 = (bm h)(a \<mapsto> replicate N Raw)" by blast
    from h0 have "bm h0 a = Some (replicate N Raw)" by simp
    from construct_at_ok [OF this, of ?n x] Nn obtain h1 where
      c: "construct_at (Ptr a ?n) x h0 = Some h1"
      and h1: "bm h1 = (bm h0)(a \<mapsto> (replicate N Raw)[?n := Live x])" by auto
    let ?c1 = "is_copy_constructible T \<and> \<not> is_nothrow_move_constructible T"
    have "\<exists>h2 h'. (if ?c1
                 then uninitialized_copy_n T (buffer' (data' v)) ?n (Ptr a 0) h1
                 else uninitialized_move_n T (buffer' (data' v)) ?n (Ptr a 0) h1) = Done () h2 \<and>
            adopt nd v h2 = Some (v\<lparr>data' := nd\<rparr>, h')"
    proof (cases "buffer' (data' v)")
      case Null
      with hv have "xs = []" by (simp add: holds_def)
      with Null n adopt_ok_Null [of v nd h1] show ?thesis by simp
    next
      case (Ptr b i)
      with hv have i: "i = 0" and blk: "bm h b = Some ?ss" and le: "?n \<le> ?c"
        by (auto simp: holds_def)
      from blk fresh have ab: "b \<noteq> a" by auto
      with h0 h1 blk have s: "bm h1 b = Some ?ss"
        and d: "bm h1 a = Some ((replicate N Raw)[?n := Live x])" by auto
      have "0 + ?n \<le> length ?ss" "0 + ?n \<le> length ((replicate N Raw)[?n := Live x])"
        "\<forall>j. 0 \<le> j \<and> j < 0 + ?n \<longrightarrow> ?ss ! j \<noteq> Raw"
        using Nn by (simp_all add: nth_append)
      from relocate_ok [OF nt ab s d this, of ?c1] obtain h2 ss' ds' where
        r: "(if ?c1 then uninitialized_copy_n T (Ptr b 0) ?n (Ptr a 0) h1
             else uninitialized_move_n T (Ptr b 0) ?n (Ptr a 0) h1) = Done () h2"
        and h2: "bm h2 = (bm h1)(b \<mapsto> ss', a \<mapsto> ds')" and ls: "length ss' = length ?ss"
        and lv: "\<forall>j<length ?ss. ?ss ! j \<noteq> Raw \<longrightarrow> ss' ! j \<noteq> Raw" by blast
      from h2 ab have b2: "bm h2 b = Some ss'" by auto
      have "size' v \<le> length ss'" using le by (simp add: ls n)
      moreover have "\<forall>j<size' v. ss' ! j \<noteq> Raw"
        using lv le by (simp add: n nth_append)
      ultimately obtain h' where "adopt nd v h2 = Some (v\<lparr>data' := nd\<rparr>, h')"
        using adopt_ok [OF _ b2, of v nd] Ptr i by auto
      with r Ptr i show ?thesis by auto
    qed
    then obtain h2 h' where
      r: "(if ?c1 then uninitialized_copy_n T (buffer' (data' v)) ?n (Ptr a 0) h1
           else uninitialized_move_n T (buffer' (data' v)) ?n (Ptr a 0) h1) = Done () h2"
      and ad: "adopt nd v h2 = Some (v\<lparr>data' := nd\<rparr>, h')" by blast
    from ctor have ctor': "RawMemory_ctor (if size' v = 0 then 1 else size' v * 2) h = (nd, h0)"
      by (simp add: N_def)
    from False have full: "size' v = Capacity v" by simp
    from c have c': "construct_at (RawMemory_plus nd (size' v)) x h0 = Some h1"
      by (simp add: RawMemory_plus_def nd n)
    have ga: "GetAddress (data' v) = buffer' (data' v)" "GetAddress nd = Ptr a 0"
      by (simp_all add: GetAddress_def nd)
    from append_body_full_eq [OF full ctor' c' r [folded n ga] ad] show ?thesis by blast
  qed
qed

lemma Erase_ok:
  assumes nt: "nothrow T" and hv: "holds h v xs" and pos: "pos < length xs"
  shows "\<exists>p v' h'. Erase T pos v h = Done p (v', h')"
proof -
  let ?c = "capacity' (data' v)"
  let ?ss = "map Live xs @ replicate (?c - length xs) Raw"
  from pos obtain m where m: "length xs = Suc m" by (cases xs) auto
  from hv pos obtain b where buf: "buffer' (data' v) = Ptr b 0" and n: "size' v = length xs"
    and le: "length xs \<le> ?c" and blk: "bm h b = Some ?ss"
    by (auto simp: holds_def split: ptr.splits)
  from pos m have pm: "pos \<le> m" by simp
  have "pos + 0 + (m - pos) < length ?ss" using le m pm by simp
  moreover have "\<forall>j. pos + 0 \<le> j \<and> j \<le> pos + 0 + (m - pos) \<longrightarrow> ?ss ! j \<noteq> Raw"
    using m pm by (simp add: nth_append)
  ultimately obtain h1 ss1 where
    mv: "move_loop T (Ptr b (Suc pos)) (Ptr b pos) 0 (m - pos) h = Done () h1"
    and h1: "bm h1 = (bm h)(b \<mapsto> ss1)" and l1: "length ss1 = length ?ss"
    and lv: "\<forall>j<length ?ss. ?ss ! j \<noteq> Raw \<longrightarrow> ss1 ! j \<noteq> Raw"
    using move_loop_ok [OF nt blk, of pos 0 "m - pos"] by blast
  from h1 have b1: "bm h1 b = Some ss1" by simp
  have "m + 0 + 1 \<le> length ss1" using le m by (simp add: l1)
  moreover have "\<forall>j. m + 0 \<le> j \<and> j < m + 0 + 1 \<longrightarrow> ss1 ! j \<noteq> Raw"
    using lv le m by (auto simp: nth_append less_Suc_eq)
  ultimately obtain h' where ds: "destroy_loop (Ptr b m) 0 1 h1 = Some h'"
    using destroy_loop_ok [OF b1, of m 0 1] by blast
  from mv ds buf pm show ?thesis
    by (simp add: Erase_def on_outcome_def vec_begin_def vec_end_def GetAddress_def
        RawMemory_plus_def destroy_n_def n m)
qed

lemma Emplace_full_eq:
  assumes "\<not> size' v < Capacity v"
    and "RawMemory_ctor (if size' v = 0 then 1 else size' v * 2) h = (nd, h0)"
    and "construct_at (RawMemory_plus nd pos) t h0 = Some h1"
    and "(if \<not> is_copy_constructible T \<or> is_nothrow_move_constructible T
          then uninitialized_move_n T (GetAddress (data' v)) pos (GetAddress nd) h1
          else uninitialized_copy_n T (GetAddress (data' v)) pos (GetAddress nd) h1)
         = Done () h2"
    and "(if \<not> is_copy_constructible T \<or> is_nothrow_move_constructible T
          then uninitialized_move_n T (ptr_add (vec_begin v) pos) (size_t_sub (size' v) pos)
                 (ptr_add (RawMemory_plus nd pos) 1) h2
          else uninitialized_copy_n T (ptr_add (vec_begin v) pos) (size_t_sub (size' v) pos)
                 (ptr_add (RawMemory_plus nd pos) 1) h2)
         = Done () h3"
    and "adopt nd v h3 = Some (v1, h')"
  shows "Emplace T pos (Some t) v h
           = Done (RawMemory_plus (data' v1) pos) (v1\<lparr>size' := size' v1 + 1\<rparr>, h')"
proof (cases "\<not> is_copy_constructible T \<or> is_nothrow_move_constructible T")
  case True
  with assms show ?thesis
    unfolding Emplace_def on_outcome_def construct_from_def by auto
next
  case False
  with assms show ?thesis
    unfolding Emplace_def on_outcome_def construct_from_def by auto
qed

lemma Emplace_ok:
  assumes nt: "nothrow T" and hv: "holds h v xs" and pos: "pos \<le> length xs"
  shows "\<exists>p v' h'. Emplace T pos (Some t) v h = Done p (v', h')"
proof -
  let ?n = "length xs" and ?c = "capacity' (data' v)"
  let ?ss = "map Live xs @ replicate (?c - ?n) Raw"
  from hv have n: "size' v = ?n" by (simp add: holds_def)
  show ?thesis
  proof (cases "size' v < Capacity v")
    case spare: True
    with hv obtain b where buf: "buffer' (data' v) = Ptr b 0" and lt: "?n < ?c"
      and blk: "bm h b = Some ?ss"
      by (auto simp: holds_def Capacity_def split: ptr.splits)
    have lss: "length ?ss = ?c" using lt by simp
    show ?thesis
    proof (cases "pos < size' v")
      case True
      with n obtain m where m: "?n = Suc m" by (cases xs) auto
      with True n have pm: "pos \<le> m" by simp
      have "Suc m < length ?ss" "m < length ?ss" "?ss ! m \<noteq> Raw"
        using lt m by (simp_all add: nth_append)
      from move_construct_at_ok [OF nt blk this] obtain h1 y r where
        mc: "move_construct_at T (Ptr b (Suc m)) (Ptr b m) h = Done () h1"
        and h1: "bm h1 = (bm h)(b \<mapsto> ?ss[m := Live r, Suc m := Live y])" by blast
      let ?ss1 = "?ss[m := Live r, Suc m := Live y]"
      from h1 have b1: "bm h1 b = Some ?ss1" by simp
      have live1: "\<And>j. j \<le> Suc m \<Longrightarrow> ?ss1 ! j \<noteq> Raw"
      proof -
        fix j assume j: "j \<le> Suc m"
        show "?ss1 ! j \<noteq> Raw"
        proof (cases "j = Suc m")
          case True
          with lt m show ?thesis by simp
        next
          case False
          with j have "j < ?n" using m by simp
          then have "?ss ! j \<noteq> Raw" by (simp add: nth_append)
          moreover from \<open>j < ?n\<close> lt have "j < length ?ss" by simp
          ultimately show ?thesis by (rule live_update2 [rotated])
        qed
      qed
      have "m - pos = 0 \<or> Suc (pos + (m - pos)) < length ?ss1" using pm lt m by simp
      moreover have "\<forall>j. pos \<le> j \<and> j \<le> Suc (pos + (m - pos)) \<and> m - pos \<noteq> 0 \<longrightarrow> ?ss1 ! j \<noteq> Raw"
        using pm live1 by simp
      ultimately obtain h2 ss2 where
        mb: "move_backward_loop T (Ptr b pos) (Ptr b (Suc (pos + (m - pos)))) (m - pos) h1
               = Done () h2"
        and h2: "bm h2 = (bm h1)(b \<mapsto> ss2)" and l2: "length ss2 = length ?ss1"
        and lv: "\<forall>j<length ?ss1. ?ss1 ! j \<noteq> Raw \<longrightarrow> ss2 ! j \<noteq> Raw"
        using move_backward_loop_ok [OF nt b1, of "m - pos" pos] by blast
      from h2 have b2: "bm h2 b = Some ss2" by simp
      have "pos < length ss2" using pm lt m by (simp add: l2)
      moreover have "ss2 ! pos \<noteq> Raw" using lv live1 [of pos] pm lt m by simp
      ultimately obtain h' where ma: "move_assign_from T (Ptr b pos) t h2 = Done () h'"
        using move_assign_from_ok [OF nt b2] by blast
      from pm have "Suc (pos + (m - pos)) = Suc m" by simp
      with mb have mb': "move_backward_loop T (Ptr b pos) (Ptr b (Suc m)) (m - pos) h1 = Done () h2"
        by simp
      from spare True mc mb' ma buf show ?thesis
        by (simp add: Emplace_def on_outcome_def vec_begin_def vec_end_def GetAddress_def
            RawMemory_plus_def RawMemory_index_def n m)
    next
      case False
      with pos n have pn: "pos = ?n" by simp
      from construct_at_ok [OF blk, of ?n t] lt obtain h' where
        "construct_at (Ptr b ?n) t h = Some h'" by auto
      with spare False buf pn show ?thesis
        by (simp add: Emplace_def on_outcome_def construct_from_def RawMemory_plus_def)
    qed
  next
    case full: False
    define N where "N = (if size' v = 0 then 1 else size' v * 2)"
    have N0: "N \<noteq> 0" and Nn: "Suc ?n \<le> N" using n by (cases xs; simp add: N_def)+
    obtain nd h0 where ctor: "RawMemory_ctor N h = (nd, h0)" by (cases "RawMemory_ctor N h")
    from RawMemory_ctor_block [OF ctor N0] obtain a where
      nd: "nd = \<lparr>buffer' = Ptr a 0, capacity' = N\<rparr>" and fresh: "bm h a = None"
      and h0: "bm h0 = (bm h)(a \<mapsto> replicate N Raw)" by blast
    from h0 have "bm h0 a = Some (replicate N Raw)" by simp
    from construct_at_ok [OF this, of pos t] Nn pos obtain h1 where
      c: "construct_at (Ptr a pos) t h0 = Some h1"
      and h1: "bm h1 = (bm h0)(a \<mapsto> (replicate N Raw)[pos := Live t])" by auto
    let ?ds1 = "(replicate N Raw)[pos := Live t]"
    let ?cm = "\<not> is_copy_constructible T \<or> is_nothrow_move_constructible T"
    have sub: "size_t_sub (size' v) pos = ?n - pos" using pos n by (simp add: size_t_sub_def)
    have "\<exists>h2 h3 h'.
            (if ?cm then uninitialized_move_n T (GetAddress (data' v)) pos (GetAddress nd) h1
             else uninitialized_copy_n T (GetAddress (data' v)) pos (GetAddress nd) h1)
              = Done () h2 \<and>
            (if ?cm
             then uninitialized_move_n T (ptr_add (vec_begin v) pos) (size_t_sub (size' v) pos)
                    (ptr_add (RawMemory_plus nd pos) 1) h2
             else uninitialized_copy_n T (ptr_add (vec_begin v) pos) (size_t_sub (size' v) pos)
                    (ptr_add (RawMemory_plus nd pos) 1) h2)
              = Done () h3 \<and>
            adopt nd v h3 = Some (v\<lparr>data' := nd\<rparr>, h')"
    proof (cases "buffer' (data' v)")
      case Null
      with hv pos have x0: "xs = []" "pos = 0" by (auto simp: holds_def)
      with Null n adopt_ok_Null [of v nd h1] show ?thesis
        by (simp add: size_t_sub_def)
    next
      case (Ptr b i)
      with hv have i: "i = 0" and blk: "bm h b = Some ?ss" and le: "?n \<le> ?c"
        by (auto simp: holds_def)
      have lss: "length ?ss = ?c" using le by simp
      from blk fresh have ab: "b \<noteq> a" by auto
      with h0 h1 blk have s: "bm h1 b = Some ?ss" and d: "bm h1 a = Some ?ds1" by auto
      have ga: "GetAddress (data' v) = Ptr b 0" "GetAddress nd = Ptr a 0"
        "ptr_add (vec_begin v) pos = Ptr b pos"
        "ptr_add (RawMemory_plus nd pos) 1 = Ptr a (Suc pos)"
        by (simp_all add: vec_begin_def GetAddress_def Ptr i nd RawMemory_plus_def)
      have "0 + pos \<le> length ?ss" "0 + pos \<le> length ?ds1"
        "\<forall>j. 0 \<le> j \<and> j < 0 + pos \<longrightarrow> ?ss ! j \<noteq> Raw"
        using Nn pos le by (simp_all add: nth_append)
      from relocate_ok' [OF nt ab s d this, of ?cm] obtain h2 ss2 ds2 where
        r1: "(if ?cm then uninitialized_move_n T (Ptr b 0) pos (Ptr a 0) h1
              else uninitialized_copy_n T (Ptr b 0) pos (Ptr a 0) h1) = Done () h2"
        and h2: "bm h2 = (bm h1)(b \<mapsto> ss2, a \<mapsto> ds2)"
        and l2: "length ss2 = length ?ss" "length ds2 = length ?ds1"
        and lv2: "\<forall>j<length ?ss. ?ss ! j \<noteq> Raw \<longrightarrow> ss2 ! j \<noteq> Raw" by blast
      from h2 ab have s2: "bm h2 b = Some ss2" and d2: "bm h2 a = Some ds2" by auto
      have live2: "\<And>j. j < ?n \<Longrightarrow> ss2 ! j \<noteq> Raw"
        using lv2 le by (simp add: nth_append)
      have "pos + (?n - pos) \<le> length ss2" "Suc pos + (?n - pos) \<le> length ds2"
        "\<forall>j. pos \<le> j \<and> j < pos + (?n - pos) \<longrightarrow> ss2 ! j \<noteq> Raw"
        using Nn pos le live2 by (simp_all add: l2)
      from relocate_ok' [OF nt ab s2 d2 this, of ?cm] obtain h3 ss3 ds3 where
        r2: "(if ?cm then uninitialized_move_n T (Ptr b pos) (?n - pos) (Ptr a (Suc pos)) h2
              else uninitialized_copy_n T (Ptr b pos) (?n - pos) (Ptr a (Suc pos)) h2) = Done () h3"
        and h3: "bm h3 = (bm h2)(b \<mapsto> ss3, a \<mapsto> ds3)"
        and l3: "length ss3 = length ss2"
        and lv3: "\<forall>j<length ss2. ss2 ! j \<noteq> Raw \<longrightarrow> ss3 ! j \<noteq> Raw" by blast
      from h3 ab have b3: "bm h3 b = Some ss3" by auto
      have "size' v \<le> length ss3" using le by (simp add: l3 l2 n)
      moreover have "\<forall>j<size' v. ss3 ! j \<noteq> Raw"
        using lv3 live2 le by (simp add: n l2)
      ultimately obtain h' where ad: "adopt nd v h3 = Some (v\<lparr>data' := nd\<rparr>, h')"
        using adopt_ok [OF _ b3, of v nd] Ptr i by auto
      from r1 r2 ad show ?thesis unfolding ga sub by blast
    qed
    then obtain h2 h3 h' where
      r1: "(if ?cm then uninitialized_move_n T (GetAddress (data' v)) pos (GetAddress nd) h1
             else uninitialized_copy_n T (GetAddress (data' v)) pos (GetAddress nd) h1)
              = Done () h2"
      and r2: "(if ?cm
             then uninitialized_move_n T (ptr_add (vec_begin v) pos) (size_t_sub (size' v) pos)
                    (ptr_add (RawMemory_plus nd pos) 1) h2
             else uninitialized_copy_n T (ptr_add (vec_begin v) pos) (size_t_sub (size' v) pos)
                    (ptr_add (RawMemory_plus nd pos) 1) h2)
              = Done () h3"
      and ad: "adopt nd v h3 = Some (v\<lparr>data' := nd\<rparr>, h')" by blast
    from ctor have ctor': "RawMemory_ctor (if size' v = 0 then 1 else size' v * 2) h = (nd, h0)"
      by (simp add: N_def)
    from c have c': "construct_at (RawMemory_plus nd pos) t h0 = Some h1"
      by (simp add: RawMemory_plus_def nd)
    from Emplace_full_eq [OF full ctor' c' r1 r2 ad] show ?thesis by blast
  qed
qed

lemma push_back_ok:
  assumes "nothrow T" and "holds h v xs"
  shows "\<exists>v' h'. push_back T c v h = Done () (v', h')"
proof (cases c)
  case (ByCopy x)
  from nt_copy_ctor [OF assms(1)] obtain y where "copy_ctor T x = Some y" by blast
  with append_body_ok [OF assms, of y] ByCopy show ?thesis by (simp add: PushBack_def)
next
  case (ByMove x)
  from nt_move_ctor [OF assms(1)] obtain y r where "move_ctor T x = Some (y, r)" by blast
  with append_body_ok [OF assms, of y] ByMove show ?thesis by (simp add: PushBack_move_def)
qed

lemma push_back_all_ok:
  assumes "nothrow T" and "value_preserving T" and "holds h v xs"
  shows "\<exists>v' h'. push_back_all T cs v h = Done () (v', h')"
  using assms(3)
proof (induction cs arbitrary: v h xs)
  case Nil
  show ?case by simp
next
  case (Cons c cs)
  from push_back_ok [OF assms(1) Cons.prems] obtain v1 h1 where
    1: "push_back T c v h = Done () (v1, h1)" by blast
  from push_back_holds [OF assms(2) Cons.prems 1] have "holds h1 v1 (xs @ [pushed c])" by simp
  from Cons.IH [OF this] 1 show ?case by simp
qed

lemma Insert_Erase_ok:
  assumes nt: "nothrow T" and vp: "value_preserving T" and hv: "holds h v xs"
    and pos: "pos \<le> length xs"
  shows "\<exists>p v1 h1 q v2 h2. Emplace T pos (Some t) v h = Done p (v1, h1) \<and>
           Erase T pos v1 h1 = Done q (v2, h2)"
proof -
  from Emplace_ok [OF nt hv pos] obtain p v1 h1 where
    1: "Emplace T pos (Some t) v h = Done p (v1, h1)" by blast
  from Emplace_holds [OF vp hv pos 1] have 2: "holds h1 v1 (take pos xs @ t # drop pos xs)" .
  from pos have "pos < length (take pos xs @ t # drop pos xs)" by simp
  from Erase_ok [OF nt 2 this] 1 show ?thesis by blast
qed

section \<open>The claims\<close>

text \<open>
  C1 (the code does otherwise). Moving a \<^verbatim>\<open>RawMemory\<close> is claimed to take over the
  source's block pointer and capacity and to do no work per element. The move
  constructor of the source copies the capacity only, leaves its own pointer null and
  move-constructs every element through it: for a freshly allocated block of two slots,
  and for one whose two slots hold live elements, that is undefined. Move assignment
  keeps its own block (address 2 below), move-constructs the source's elements into it
  one by one, and the source still holds its block (address 1).
\<close>

theorem RawMemory_move_relocates_elements:
  "RawMemory_ctor 2 (empty_heap :: int heap)
   = (\<lparr>buffer' = Ptr 1 0, capacity' = 2\<rparr>, \<lparr>blocks = [(1, [Raw, Raw])], leaked = []\<rparr>) \<and>
   RawMemory_move_ctor int_ops \<lparr>buffer' = Ptr 1 0, capacity' = 2\<rparr>
     \<lparr>blocks = [(1, [Raw, Raw])], leaked = []\<rparr> = Undefined \<and>
   RawMemory_move_ctor int_ops \<lparr>buffer' = Ptr 1 0, capacity' = 2\<rparr>
     \<lparr>blocks = [(1, [Live 1, Live 2])], leaked = []\<rparr> = Undefined \<and>
   RawMemory_move_assign int_ops \<lparr>buffer' = Ptr 2 0, capacity' = 2\<rparr>
     \<lparr>buffer' = Ptr 1 0, capacity' = 2\<rparr>
     \<lparr>blocks = [(1, [Live 1, Live 2]), (2, [Raw, Raw])], leaked = []\<rparr>
   = Done \<lparr>buffer' = Ptr 2 0, capacity' = 2\<rparr>
       \<lparr>blocks = [(1, [Live 1, Live 2]), (2, [Live 1, Live 2])], leaked = []\<rparr>"
  by code_simp

text \<open>
  C2 (the code does otherwise). Copy assignment into sufficient capacity is claimed to
  copy-construct the new suffix and to leave the target equal to the source. Build
  \<open>[9, 8, 7]\<close> (capacity 4) and \<open>[1, 2, 3, 4]\<close> by \<^verbatim>\<open>push_back\<close> and assign the second
  to the first: the source assigns the first three elements, then constructs slot 0
  once more (over the live element just assigned) and never constructs slot 3. The
  target has size 4 and its fourth slot is raw memory.
\<close>

theorem copy_assign_grow_leaves_raw_slot:
  "push_back_all int_ops [ByCopy 9, ByCopy 8, ByCopy 7] SimpleVector_default empty_heap
   = Done () (vec_at 3 4 3, \<lparr>blocks = [(3, [Live 9, Live 8, Live 7, Raw])], leaked = []\<rparr>) \<and>
   push_back_all int_ops [ByCopy 1, ByCopy 2, ByCopy 3, ByCopy 4] SimpleVector_default
     \<lparr>blocks = [(3, [Live 9, Live 8, Live 7, Raw])], leaked = []\<rparr>
   = Done () (vec_at 6 4 4,
       \<lparr>blocks = [(6, [Live 1, Live 2, Live 3, Live 4]), (3, [Live 9, Live 8, Live 7, Raw])],
        leaked = []\<rparr>) \<and>
   copy_assign_distinct int_ops (vec_at 3 4 3) (vec_at 6 4 4)
     \<lparr>blocks = [(6, [Live 1, Live 2, Live 3, Live 4]), (3, [Live 9, Live 8, Live 7, Raw])],
      leaked = []\<rparr>
   = Done () (vec_at 3 4 4,
       \<lparr>blocks = [(6, [Live 1, Live 2, Live 3, Live 4]), (3, [Live 1, Live 2, Live 3, Raw])],
        leaked = [1]\<rparr>)"
  by code_simp

text \<open>
  C3 (the code does otherwise). \<^verbatim>\<open>Resize\<close> is claimed to turn \<open>[42]\<close> into \<open>[42, 0, 0]\<close>
  and, when shrinking, to destroy the trailing elements. The source value-constructs
  from the start of the block, so \<open>[42]\<close> (built by one \<^verbatim>\<open>push_back\<close>) resized to 3
  loses 42 and has a raw third slot; and it destroys from the start of the block, so
  \<open>[42, 2, 3]\<close> (built by three) resized to 1 destroys 42 and 2 and keeps 3.
\<close>

theorem Resize_works_at_block_start:
  "push_back_all int_ops [ByCopy 42] SimpleVector_default empty_heap
   = Done () (vec_at 1 1 1, \<lparr>blocks = [(1, [Live 42])], leaked = []\<rparr>) \<and>
   Resize int_ops 3 (vec_at 1 1 1) \<lparr>blocks = [(1, [Live 42])], leaked = []\<rparr>
   = Done () (vec_at 2 3 3, \<lparr>blocks = [(2, [Live 0, Live 0, Raw])], leaked = [42]\<rparr>) \<and>
   push_back_all int_ops [ByCopy 42, ByCopy 2, ByCopy 3] SimpleVector_default empty_heap
   = Done () (vec_at 3 4 3, \<lparr>blocks = [(3, [Live 42, Live 2, Live 3, Raw])], leaked = []\<rparr>) \<and>
   Resize int_ops 1 (vec_at 3 4 3) \<lparr>blocks = [(3, [Live 42, Live 2, Live 3, Raw])], leaked = []\<rparr>
   = Done () (vec_at 3 4 1, \<lparr>blocks = [(3, [Raw, Raw, Live 3, Raw])], leaked = []\<rparr>)"
  by code_simp

text \<open>
  C4 (the code does otherwise). \<^verbatim>\<open>PopBack\<close> is claimed to destroy the last element and
  to leave the others unchanged. On \<open>[1, 2, 3]\<close> (built by three \<^verbatim>\<open>push_back\<close> calls) the
  source destroys the element at index 0; the element at index 2 is never destroyed.
\<close>

theorem PopBack_destroys_first:
  "push_back_all int_ops [ByCopy 1, ByCopy 2, ByCopy 3] SimpleVector_default empty_heap
   = Done () (vec_at 3 4 3, \<lparr>blocks = [(3, [Live 1, Live 2, Live 3, Raw])], leaked = []\<rparr>) \<and>
   PopBack (vec_at 3 4 3) \<lparr>blocks = [(3, [Live (1::int), Live 2, Live 3, Raw])], leaked = []\<rparr>
   = Done () (vec_at 3 4 2, \<lparr>blocks = [(3, [Raw, Live 2, Live 3, Raw])], leaked = []\<rparr>)"
  by code_simp

text \<open>
  C5 (the code does otherwise). When relocating the suffix fails in the reallocating
  \<^verbatim>\<open>Emplace\<close>, every element constructed in the new buffer is claimed to be destroyed,
  the new element included. Take an element type whose copy of 2 throws, the full vector
  \<open>[1, 2]\<close> (built by two \<^verbatim>\<open>EmplaceBack\<close> calls) and insert 7 at position 1: the old
  array is intact, but the handler destroys the relocated prefix only and the new block
  is released with 7 still live.
\<close>

theorem Insert_suffix_failure_leaks_new_element:
  "EmplaceBack (throwing_ops 2) (Some 1) SimpleVector_default empty_heap
   = Done (Ptr 1 0) (vec_at 1 1 1, \<lparr>blocks = [(1, [Live 1])], leaked = []\<rparr>) \<and>
   EmplaceBack (throwing_ops 2) (Some 2) (vec_at 1 1 1) \<lparr>blocks = [(1, [Live 1])], leaked = []\<rparr>
   = Done (Ptr 2 1) (vec_at 2 2 2, \<lparr>blocks = [(2, [Live 1, Live 2])], leaked = []\<rparr>) \<and>
   Insert (throwing_ops 2) 1 7 (vec_at 2 2 2) \<lparr>blocks = [(2, [Live 1, Live 2])], leaked = []\<rparr>
   = Thrown (vec_at 2 2 2, \<lparr>blocks = [(2, [Live 1, Live 2])], leaked = [7]\<rparr>)"
  by code_simp

text \<open>
  C6 (amended). The claim counts from any vector state, but \<^verbatim>\<open>push_back\<close> appends: a
  vector that already holds one element has size 2, not 1, after one call (the
  counterexample below). What holds, for every element type that preserves values, every
  valid vector holding \<open>xs\<close> and every sequence of \<^verbatim>\<open>push_back\<close> calls (by copy or by
  move): when all the calls return, the vector is valid again and holds \<open>xs\<close> followed
  by the pushed values in call order, its size is the old size plus the number of
  calls, and its capacity is at least that; and when the element type does not throw,
  all the calls do return. From an empty vector this is the claim: size \<open>n\<close>, capacity
  at least \<open>n\<close>, the pushed values in call order.
\<close>

theorem push_back_sequence:
  assumes "value_preserving T" and "holds h v xs"
  shows "(push_back_all T cs v h = Done u (v', h') \<longrightarrow>
            holds h' v' (xs @ map pushed cs) \<and> size' v' = length xs + length cs \<and>
            length xs + length cs \<le> Capacity v') \<and>
         (nothrow T \<longrightarrow> (\<exists>w k. push_back_all T cs v h = Done () (w, k)))"
proof (intro conjI impI)
  assume run: "push_back_all T cs v h = Done u (v', h')"
  from push_back_all_holds [OF assms run] have 1: "holds h' v' (xs @ map pushed cs)" by simp
  then show "holds h' v' (xs @ map pushed cs)" .
  from holds_size [OF 1] show "size' v' = length xs + length cs" by simp
  from holds_capacity [OF 1] show "length xs + length cs \<le> Capacity v'" by simp
next
  assume "nothrow T"
  from push_back_all_ok [OF this assms] show "\<exists>w k. push_back_all T cs v h = Done () (w, k)" .
qed

theorem push_back_sequence_witness:
  "value_preserving int_ops \<and> nothrow int_ops \<and>
   holds \<lparr>blocks = [(1, [Live 5])], leaked = []\<rparr> (vec_at 1 1 1) [5::int] \<and>
   push_back_all int_ops [ByCopy 1, ByMove 2, ByCopy 3] (vec_at 1 1 1)
     \<lparr>blocks = [(1, [Live 5])], leaked = []\<rparr>
     = Done () (vec_at 3 4 4, \<lparr>blocks = [(3, [Live 5, Live 1, Live 2, Live 3])], leaked = []\<rparr>) \<and>
   holds \<lparr>blocks = [(3, [Live 5, Live 1, Live 2, Live 3])], leaked = []\<rparr> (vec_at 3 4 4)
     ([5::int] @ map pushed [ByCopy 1, ByMove 2, ByCopy 3]) \<and>
   size' (vec_at 3 4 4) = length [5::int] + length [ByCopy 1, ByMove 2, ByCopy (3::int)] \<and>
   length [5::int] + length [ByCopy 1, ByMove 2, ByCopy (3::int)] \<le> Capacity (vec_at 3 4 4)"
proof -
  have 0: "nothrow int_ops" by (simp add: nothrow_def int_ops_def)
  have 1: "value_preserving int_ops" by (simp add: value_preserving_def int_ops_def)
  have 2: "holds \<lparr>blocks = [(1, [Live 5])], leaked = []\<rparr> (vec_at 1 1 1) [5::int]"
    by (simp add: holds_def vec_at_def)
  have 3: "push_back_all int_ops [ByCopy 1, ByMove 2, ByCopy 3] (vec_at 1 1 1)
     \<lparr>blocks = [(1, [Live 5])], leaked = []\<rparr>
     = Done () (vec_at 3 4 4, \<lparr>blocks = [(3, [Live 5, Live 1, Live 2, Live 3])], leaked = []\<rparr>)"
    by code_simp
  from push_back_sequence [OF 1 2, of "[ByCopy 1, ByMove 2, ByCopy 3]" "()" "vec_at 3 4 4"
      "\<lparr>blocks = [(3, [Live 5, Live 1, Live 2, Live 3])], leaked = []\<rparr>"] 0 1 2 3
  show ?thesis by blast
qed

theorem push_back_size_counterexample:
  "holds \<lparr>blocks = [(1, [Live 5])], leaked = []\<rparr> (vec_at 1 1 1) [5::int] \<and>
   push_back_all int_ops [ByCopy 7] (vec_at 1 1 1) \<lparr>blocks = [(1, [Live 5])], leaked = []\<rparr>
     = Done () (vec_at 2 2 2, \<lparr>blocks = [(2, [Live 5, Live 7])], leaked = []\<rparr>) \<and>
   size' (vec_at 2 2 2) \<noteq> length [ByCopy (7::int)] \<and>
   holds \<lparr>blocks = [(2, [Live 5, Live 7])], leaked = []\<rparr> (vec_at 2 2 2) [5, 7::int] \<and>
   [5, 7] \<noteq> map pushed [ByCopy (7::int)]"
proof -
  have "push_back_all int_ops [ByCopy 7] (vec_at 1 1 1) \<lparr>blocks = [(1, [Live 5])], leaked = []\<rparr>
     = Done () (vec_at 2 2 2, \<lparr>blocks = [(2, [Live 5, Live 7])], leaked = []\<rparr>)"
    by code_simp
  then show ?thesis by (simp add: holds_def vec_at_def)
qed

text \<open>
  C7. Appending has the strong guarantee against a failure of the new element's
  constructor: whenever the copy, the move or the constructor call that makes the new
  element throws, \<^verbatim>\<open>PushBack\<close> and \<^verbatim>\<open>EmplaceBack\<close> throw with the vector and the whole heap
  exactly as they were before the call, on a full vector as on any other. (On a full
  vector the new element is made in the fresh block before anything is relocated, and
  that block is released again.)
\<close>

theorem append_strong_guarantee:
  "(copy_ctor T x = None \<longrightarrow> PushBack T x v h = Thrown (v, h)) \<and>
   (move_ctor T x = None \<longrightarrow> PushBack_move T x v h = Thrown (v, h)) \<and>
   EmplaceBack T None v h = Thrown (v, h)"
  by (simp add: PushBack_def PushBack_move_def EmplaceBack_def append_body_ctor_throws)

theorem append_strong_guarantee_witness:
  "copy_ctor (throwing_ops 2) 2 = None \<and> move_ctor (throwing_ops 2) 2 = None \<and>
   size' (vec_at 1 1 1) = Capacity (vec_at 1 1 1) \<and>
   PushBack (throwing_ops 2) 2 (vec_at 1 1 1) \<lparr>blocks = [(1, [Live 1])], leaked = []\<rparr>
     = Thrown (vec_at 1 1 1, \<lparr>blocks = [(1, [Live 1])], leaked = []\<rparr>) \<and>
   PushBack_move (throwing_ops 2) 2 (vec_at 1 1 1) \<lparr>blocks = [(1, [Live 1])], leaked = []\<rparr>
     = Thrown (vec_at 1 1 1, \<lparr>blocks = [(1, [Live 1])], leaked = []\<rparr>)"
  using append_strong_guarantee
    [of "throwing_ops 2" 2 "vec_at 1 1 1" "\<lparr>blocks = [(1, [Live 1])], leaked = []\<rparr>"]
  by (simp add: throwing_ops_def vec_at_def Capacity_def)

text \<open>
  C8. For every element type that preserves values, every valid vector holding \<open>xs\<close>,
  every position \<open>pos\<close> up to its size and every value \<open>x\<close>: when \<^verbatim>\<open>Insert\<close> at \<open>pos\<close>
  (either overload) returns and \<^verbatim>\<open>Erase\<close> at \<open>pos\<close> on the result returns, the vector is
  valid and holds exactly \<open>xs\<close> again, with the size it had before (its capacity may
  have doubled); and when the element type does not throw, both calls do return.
\<close>

theorem insert_then_erase_restores:
  assumes "value_preserving T" and "holds h v xs" and "pos \<le> size' v"
  shows "((Insert T pos x v h = Done p (v1, h1) \<or> Insert_move T pos x v h = Done p (v1, h1)) \<and>
          Erase T pos v1 h1 = Done q (v2, h2) \<longrightarrow> holds h2 v2 xs \<and> size' v2 = size' v) \<and>
         (nothrow T \<longrightarrow>
            (\<exists>p v1 h1 q v2 h2. Insert T pos x v h = Done p (v1, h1) \<and>
               Erase T pos v1 h1 = Done q (v2, h2)) \<and>
            (\<exists>p v1 h1 q v2 h2. Insert_move T pos x v h = Done p (v1, h1) \<and>
               Erase T pos v1 h1 = Done q (v2, h2)))"
proof (intro conjI impI)
  from assms(2,3) have pos: "pos \<le> length xs" by (simp add: holds_size)
  {
    assume a: "(Insert T pos x v h = Done p (v1, h1) \<or> Insert_move T pos x v h = Done p (v1, h1)) \<and>
          Erase T pos v1 h1 = Done q (v2, h2)"
    then obtain made where
      run: "Emplace T pos made v h = Done p (v1, h1)"
      and made: "made = copy_ctor T x \<or> made = map_option fst (move_ctor T x)"
      by (auto simp: Insert_def Insert_move_def)
    from run obtain t where t: "made = Some t"
      by (cases made) (auto simp: Emplace_def on_outcome_def construct_from_def unwind_def
          RawMemory_dtor_def
          split: if_splits prod.splits option.splits)
    with made have "copy_ctor T x = Some t \<or> (\<exists>r. move_ctor T x = Some (t, r))"
      by (cases "move_ctor T x") auto
    with assms(1) have "t = x" by (blast dest: vp_copy_ctor vp_move_ctor)
    with Emplace_holds [OF assms(1,2) pos run [unfolded t]]
    have 1: "holds h1 v1 (take pos xs @ x # drop pos xs)" by simp
    from pos have "pos < length (take pos xs @ x # drop pos xs)" by simp
    from Erase_holds [OF assms(1) 1 this] a
    have 2: "holds h2 v2 xs" unfolding erase_insert_list [OF pos] by simp
    then show "holds h2 v2 xs" .
    from holds_size [OF 2] holds_size [OF assms(2)] show "size' v2 = size' v" by simp
  }
  {
    assume nt: "nothrow T"
    from nt_copy_ctor [OF nt] obtain y where "copy_ctor T x = Some y" by blast
    with Insert_Erase_ok [OF nt assms(1,2) pos, of y]
    show "\<exists>p v1 h1 q v2 h2. Insert T pos x v h = Done p (v1, h1) \<and>
               Erase T pos v1 h1 = Done q (v2, h2)"
      by (simp add: Insert_def)
    from nt_move_ctor [OF nt] obtain z r where "move_ctor T x = Some (z, r)" by blast
    with Insert_Erase_ok [OF nt assms(1,2) pos, of z]
    show "\<exists>p v1 h1 q v2 h2. Insert_move T pos x v h = Done p (v1, h1) \<and>
               Erase T pos v1 h1 = Done q (v2, h2)"
      by (simp add: Insert_move_def)
  }
qed

theorem insert_then_erase_restores_witness:
  "value_preserving int_ops \<and> nothrow int_ops \<and>
   holds \<lparr>blocks = [(1, [Live 1, Live 2, Live 3])], leaked = []\<rparr> (vec_at 1 3 3)
     [1, 2, 3::int] \<and>
   1 \<le> size' (vec_at 1 3 3) \<and>
   Insert int_ops 1 42 (vec_at 1 3 3) \<lparr>blocks = [(1, [Live 1, Live 2, Live 3])], leaked = []\<rparr>
     = Done (Ptr 2 1) (vec_at 2 6 4,
         \<lparr>blocks = [(2, [Live 1, Live 42, Live 2, Live 3, Raw, Raw])], leaked = []\<rparr>) \<and>
   Erase int_ops 1 (vec_at 2 6 4)
       \<lparr>blocks = [(2, [Live 1, Live 42, Live 2, Live 3, Raw, Raw])], leaked = []\<rparr>
     = Done (Ptr 2 1) (vec_at 2 6 3,
         \<lparr>blocks = [(2, [Live 1, Live 2, Live 3, Raw, Raw, Raw])], leaked = []\<rparr>) \<and>
   holds \<lparr>blocks = [(2, [Live 1, Live 2, Live 3, Raw, Raw, Raw])], leaked = []\<rparr> (vec_at 2 6 3)
     [1, 2, 3::int] \<and>
   size' (vec_at 2 6 3) = size' (vec_at 1 3 3)"
proof -
  have 0: "nothrow int_ops" by (simp add: nothrow_def int_ops_def)
  have 1: "value_preserving int_ops" by (simp add: value_preserving_def int_ops_def)
  have 2: "holds \<lparr>blocks = [(1, [Live 1, Live 2, Live 3])], leaked = []\<rparr> (vec_at 1 3 3) [1, 2, 3::int]"
    by (simp add: holds_def vec_at_def)
  have 3: "1 \<le> size' (vec_at 1 3 3)" by (simp add: vec_at_def)
  have 4: "Insert int_ops 1 42 (vec_at 1 3 3) \<lparr>blocks = [(1, [Live 1, Live 2, Live 3])], leaked = []\<rparr>
     = Done (Ptr 2 1) (vec_at 2 6 4,
         \<lparr>blocks = [(2, [Live 1, Live 42, Live 2, Live 3, Raw, Raw])], leaked = []\<rparr>)"
    by code_simp
  have 5: "Erase int_ops 1 (vec_at 2 6 4)
       \<lparr>blocks = [(2, [Live 1, Live 42, Live 2, Live 3, Raw, Raw])], leaked = []\<rparr>
     = Done (Ptr 2 1) (vec_at 2 6 3,
         \<lparr>blocks = [(2, [Live 1, Live 2, Live 3, Raw, Raw, Raw])], leaked = []\<rparr>)"
    by code_simp
  from insert_then_erase_restores [OF 1 2 3, of 42 "Ptr 2 1" "vec_at 2 6 4"
      "\<lparr>blocks = [(2, [Live 1, Live 42, Live 2, Live 3, Raw, Raw])], leaked = []\<rparr>"
      "Ptr 2 1" "vec_at 2 6 3"
      "\<lparr>blocks = [(2, [Live 1, Live 2, Live 3, Raw, Raw, Raw])], leaked = []\<rparr>"] 0 1 2 3 4 5
  show ?thesis by blast
qed

text \<open>
  C9. The invariant \<^verbatim>\<open>size <= capacity\<close> holds for every vector object in every program
  state that a sequence of operations reaches from the empty state: the constructors,
  both assignments, \<^verbatim>\<open>Swap\<close>, \<^verbatim>\<open>Reserve\<close>, \<^verbatim>\<open>Resize\<close>, \<^verbatim>\<open>PushBack\<close>, \<^verbatim>\<open>EmplaceBack\<close>,
  \<^verbatim>\<open>Insert\<close> and \<^verbatim>\<open>Emplace\<close> at a position up to the size, \<^verbatim>\<open>PopBack\<close> on a non-empty
  vector, \<^verbatim>\<open>Erase\<close> at a position below the size and the destructor, whether the call
  returns or throws.
\<close>

theorem size_le_capacity_invariant:
  "reachable T vs h \<Longrightarrow> vs a = Some v \<Longrightarrow> size' v \<le> Capacity v"
  by (auto dest: reachable_all_fit all_fit_get)

theorem size_le_capacity_invariant_witness:
  "reachable int_ops [0 \<mapsto> vec_at 2 3 3]
     \<lparr>blocks = [(2, [Live 0, Live 0, Raw])], leaked = [1]\<rparr> \<and>
   size' (vec_at 2 3 3) \<le> Capacity (vec_at 2 3 3)"
proof -
  have r1: "reachable int_ops [0 \<mapsto> SimpleVector_default] (empty_heap :: int heap)"
    by (rule r_default [OF r_start]) simp
  have "after (push_back int_ops (ByCopy 1) SimpleVector_default empty_heap)
          = Some (vec_at 1 1 1, \<lparr>blocks = [(1, [Live 1])], leaked = []\<rparr>)"
    by code_simp
  from r_push_back [where a = 0, OF r1 _ this]
  have r2: "reachable int_ops [0 \<mapsto> vec_at 1 1 1]
              \<lparr>blocks = [(1, [Live 1])], leaked = []\<rparr>"
    by simp
  have "after (Resize int_ops 3 (vec_at 1 1 1) \<lparr>blocks = [(1, [Live 1])], leaked = []\<rparr>)
          = Some (vec_at 2 3 3, \<lparr>blocks = [(2, [Live 0, Live 0, Raw])], leaked = [1]\<rparr>)"
    by code_simp
  from r_resize [where a = 0, OF r2 _ this]
  have r3: "reachable int_ops [0 \<mapsto> vec_at 2 3 3]
              \<lparr>blocks = [(2, [Live 0, Live 0, Raw])], leaked = [1]\<rparr>"
    by simp
  from size_le_capacity_invariant [OF r3, of 0 "vec_at 2 3 3"] r3 show ?thesis
    by simp
qed

text \<open>
  C10. Self-assignment is a no-op: copy-assigning or move-assigning the vector at
  address \<open>a\<close> to itself returns with the store of vectors and the heap (every block,
  and the record of leaked elements) unchanged.
\<close>

theorem self_assignment_no_op:
  "assign_copy T a a vs h = Done () (vs, h) \<and> assign_move a a vs h = Done () (vs, h)"
  by (simp add: assign_copy_def assign_move_def)

end
